theory Spec2Isabelle
  imports Main "HOL-Library.Multiset"
begin

section \<open>Data model of the task collection\<close>

text \<open>
  The collection is the class \<open>TaskCollection\<close>: an insertion-ordered \<open>Map<string, ITask>\<close>,
  the quiet-mode flag and the terminal. A JavaScript \<open>Map\<close> iterates in insertion order and
  \<open>set\<close> on a fresh key appends, so the map is an association list. A task is an object;
  the sets \<open>dependencies\<close> and \<open>dependents\<close> hold references to task objects. Every task
  object in the collection is stored under its own name and a name is stored once, so a
  reference is modelled by the name of the task it points to, and following the reference
  is the lookup of that name. A JavaScript \<open>Set\<close> iterates in insertion order and
  \<open>add\<close> of a present element does nothing, so a set is a list extended by \<open>setAdd\<close>.
\<close>

text \<open>
  Modelled from the spec: the enumeration \<open>TaskStatus\<close> is declared in \<open>./TaskStatus\<close>;
  the code at hand uses only \<open>TaskStatus.Ready\<close>. The members are the ones the
  specification lists.
\<close>

datatype TaskStatus = Ready | Executing | Success | Failure | Blocked

text \<open>
  Modelled from the spec: the interfaces \<open>ITaskDefinition\<close> and \<open>ITask\<close> are declared in
  \<open>./ITask\<close>. A definition has a name (its other fields are opaque to the collection);
  a task adds the four fields that \<open>addTask\<close> initialises.
\<close>

record ITaskDefinition =
  name :: string

record ITask = ITaskDefinition +
  dependencies :: "string list"
  dependents :: "string list"
  status :: TaskStatus
  criticalPathLength :: "nat option"

type_synonym registry = "(string \<times> ITask) list"

record TaskCollection =
  tasks :: registry
  quietMode :: bool
  terminal :: "string list"

text \<open>Every \<open>throw new Error(...)\<close> of the class, with the variable part of its message.\<close>

datatype error =
    AlreadyRegistered
  | TaskNotRegistered string
  | DependenciesUndefined
  | ProjectNotRegistered string
  | CyclicDependency "string list"

text \<open>The constructor: an empty map; the terminal starts with nothing written.\<close>

definition newTaskCollection :: "bool \<Rightarrow> TaskCollection" where
  "newTaskCollection quiet = \<lparr>tasks = [], quietMode = quiet, terminal = []\<rparr>"

subsection \<open>Map and set primitives\<close>

definition has :: "registry \<Rightarrow> string \<Rightarrow> bool" where
  "has ts k = (map_of ts k \<noteq> None)"

definition setAdd :: "string list \<Rightarrow> string \<Rightarrow> string list" where
  "setAdd xs x = (if x \<in> set xs then xs else xs @ [x])"

text \<open>A field assignment on the task object stored under \<open>k\<close>; the map's order is untouched.\<close>

definition updateTask :: "string \<Rightarrow> (ITask \<Rightarrow> ITask) \<Rightarrow> registry \<Rightarrow> registry" where
  "updateTask k f ts = map (\<lambda>(k', t). if k' = k then (k', f t) else (k', t)) ts"

definition dependenciesOf :: "registry \<Rightarrow> string \<Rightarrow> string list" where
  "dependenciesOf ts k = (case map_of ts k of None \<Rightarrow> [] | Some t \<Rightarrow> dependencies t)"

definition dependentsOf :: "registry \<Rightarrow> string \<Rightarrow> string list" where
  "dependentsOf ts k = (case map_of ts k of None \<Rightarrow> [] | Some t \<Rightarrow> dependents t)"

definition lengthOf :: "registry \<Rightarrow> string \<Rightarrow> nat option" where
  "lengthOf ts k = (case map_of ts k of None \<Rightarrow> None | Some t \<Rightarrow> criticalPathLength t)"

section \<open>Registration\<close>

text \<open>\<open>addTask\<close>: the outcome (the error thrown, or unit) and the collection afterwards.\<close>

definition addTask :: "ITaskDefinition \<Rightarrow> TaskCollection \<Rightarrow> (error + unit) \<times> TaskCollection" where
  "addTask taskDefinition c =
     (if has (tasks c) (name taskDefinition) then (Inl AlreadyRegistered, c)
      else
        let task = \<lparr>name = name taskDefinition, dependencies = [], dependents = [],
                     status = Ready, criticalPathLength = None\<rparr>;
            c' = c\<lparr>tasks := tasks c @ [(name task, task)]\<rparr>
        in (Inr (),
            if \<not> quietMode c' then c'\<lparr>terminal := terminal c' @ [''Registered '' @ name task]\<rparr>
            else c'))"

definition hasTask :: "string \<Rightarrow> TaskCollection \<Rightarrow> bool" where
  "hasTask taskName c = has (tasks c) taskName"

text \<open>
  The loop of \<open>addDependencies\<close>: each dependency name is checked and then linked in both
  directions, one after the other; the throw leaves what earlier iterations did.
\<close>

definition addEdge :: "string \<Rightarrow> string \<Rightarrow> registry \<Rightarrow> registry" where
  "addEdge taskName dependencyName ts =
     updateTask dependencyName (\<lambda>d. d\<lparr>dependents := setAdd (dependents d) taskName\<rparr>)
       (updateTask taskName (\<lambda>t. t\<lparr>dependencies := setAdd (dependencies t) dependencyName\<rparr>) ts)"

fun addDependenciesLoop :: "string \<Rightarrow> string list \<Rightarrow> registry \<Rightarrow> (error + unit) \<times> registry" where
  "addDependenciesLoop taskName [] ts = (Inr (), ts)"
| "addDependenciesLoop taskName (dependencyName # rest) ts =
     (if \<not> has ts dependencyName then (Inl (ProjectNotRegistered dependencyName), ts)
      else addDependenciesLoop taskName rest (addEdge taskName dependencyName ts))"

text \<open>The argument \<open>taskDependencies\<close> may be undefined: \<open>None\<close>.\<close>

definition addDependencies ::
    "string \<Rightarrow> string list option \<Rightarrow> TaskCollection \<Rightarrow> (error + unit) \<times> TaskCollection" where
  "addDependencies taskName taskDependencies c =
     (if \<not> has (tasks c) taskName then (Inl (TaskNotRegistered taskName), c)
      else case taskDependencies of
        None \<Rightarrow> (Inl DependenciesUndefined, c)
      | Some deps \<Rightarrow>
          (case addDependenciesLoop taskName deps (tasks c) of
             (r, ts') \<Rightarrow> (r, c\<lparr>tasks := ts'\<rparr>)))"

section \<open>Cycle detection\<close>

text \<open>
  \<open>_checkForCyclicDependencies\<close>: the \<open>for\<close> loop over \<open>tasks\<close> is the recursion on the
  list; \<open>dependencyChain\<close> is pushed before and popped after the recursive call, so the
  caller's chain is the one passed on; \<open>alreadyCheckedProjects\<close> is one shared set, so the
  set the recursive call leaves is the one the rest of the loop sees. The error carries
  the reversed list that the message joins.
\<close>

function checkForCyclicDependencies ::
    "registry \<Rightarrow> string list \<Rightarrow> string list \<Rightarrow> string list \<Rightarrow> error + string list" where
  "checkForCyclicDependencies ts [] dependencyChain alreadyChecked = Inr alreadyChecked"
| "checkForCyclicDependencies ts (t # rest) dependencyChain alreadyChecked =
     (if t \<in> set dependencyChain then Inl (CyclicDependency (rev (dependencyChain @ [t])))
      else if t \<notin> set alreadyChecked then
        (case checkForCyclicDependencies ts (dependentsOf ts t) (dependencyChain @ [t])
                (alreadyChecked @ [t]) of
           Inl e \<Rightarrow> Inl e
         | Inr alreadyChecked' \<Rightarrow> checkForCyclicDependencies ts rest dependencyChain alreadyChecked')
      else checkForCyclicDependencies ts rest dependencyChain alreadyChecked)"
  by pat_completeness auto

text \<open>The set of checked names only grows: what the termination of the nested call needs.\<close>

lemma check_grows:
  "checkForCyclicDependencies_dom (ts, xs, chain, checked) \<Longrightarrow>
   checkForCyclicDependencies ts xs chain checked = Inr checked' \<Longrightarrow>
   set checked \<subseteq> set checked'"
proof (induction ts xs chain checked arbitrary: checked' rule: checkForCyclicDependencies.pinduct)
  case (1 ts chain checked)
  then show ?case by (simp add: checkForCyclicDependencies.psimps)
next
  case (2 ts t rest chain checked)
  show ?case
  proof (cases "t \<in> set chain")
    case True
    with 2 show ?thesis by (simp add: checkForCyclicDependencies.psimps)
  next
    case notin: False
    show ?thesis
    proof (cases "t \<in> set checked")
      case True
      with notin 2 show ?thesis by (simp add: checkForCyclicDependencies.psimps)
    next
      case False
      with notin 2(1,5) obtain c1 where
        c1: "checkForCyclicDependencies ts (dependentsOf ts t) (chain @ [t]) (checked @ [t]) = Inr c1"
        and c2: "checkForCyclicDependencies ts rest chain c1 = Inr checked'"
        by (auto simp: checkForCyclicDependencies.psimps split: sum.splits)
      from 2(2)[OF notin False c1] have "set (checked @ [t]) \<subseteq> set c1" .
      moreover from 2(3)[OF notin False c1 c2] have "set c1 \<subseteq> set checked'" .
      ultimately show ?thesis by auto
    qed
  qed
qed

termination checkForCyclicDependencies
proof (relation "(\<lambda>(ts, xs, chain, checked). card (fst ` set ts - set checked)) <*mlex*>
                 measure (\<lambda>(ts, xs, chain, checked). length xs)")
  show "wf ((\<lambda>(ts, xs, chain, checked). card (fst ` set ts - set checked)) <*mlex*>
                 measure (\<lambda>(ts, xs, chain, checked). length xs))"
    by (simp add: wf_mlex)
next
  fix ts :: registry and t :: string and rest chain checked :: "string list"
  assume "t \<notin> set chain" "t \<notin> set checked"
  show "((ts, dependentsOf ts t, chain @ [t], checked @ [t]), ts, t # rest, chain, checked)
       \<in> (\<lambda>(ts, xs, chain, checked). card (fst ` set ts - set checked)) <*mlex*>
                 measure (\<lambda>(ts, xs, chain, checked). length xs)"
  proof (cases "t \<in> fst ` set ts")
    case True
    have "fst ` set ts - set (checked @ [t]) \<subset> fst ` set ts - set checked"
      using True \<open>t \<notin> set checked\<close> by auto
    then have "card (fst ` set ts - set (checked @ [t])) < card (fst ` set ts - set checked)"
      by (intro psubset_card_mono) auto
    then show ?thesis by (simp add: mlex_less)
  next
    case False
    then have "map_of ts t = None" by (simp add: map_of_eq_None_iff)
    then have "dependentsOf ts t = []" by (simp add: dependentsOf_def)
    moreover have "fst ` set ts - set (checked @ [t]) = fst ` set ts - set checked"
      using False by auto
    ultimately show ?thesis by (simp add: mlex_iff)
  qed
next
  fix ts :: registry and t :: string and rest chain checked x2 :: "string list"
  assume "t \<notin> set chain" "t \<notin> set checked"
    and r: "checkForCyclicDependencies ts (dependentsOf ts t) (chain @ [t]) (checked @ [t]) = Inr x2"
    and d: "checkForCyclicDependencies_dom (ts, dependentsOf ts t, chain @ [t], checked @ [t])"
  from check_grows[OF d r] have "set checked \<subseteq> set x2" by auto
  then have "card (fst ` set ts - set x2) \<le> card (fst ` set ts - set checked)"
    by (intro card_mono) auto
  then show "((ts, rest, chain, x2), ts, t # rest, chain, checked)
       \<in> (\<lambda>(ts, xs, chain, checked). card (fst ` set ts - set checked)) <*mlex*>
                 measure (\<lambda>(ts, xs, chain, checked). length xs)"
    by (auto simp: mlex_iff)
next
  fix ts :: registry and t :: string and rest chain checked :: "string list"
  show "((ts, rest, chain, checked), ts, t # rest, chain, checked)
       \<in> (\<lambda>(ts, xs, chain, checked). card (fst ` set ts - set checked)) <*mlex*>
                 measure (\<lambda>(ts, xs, chain, checked). length xs)"
    by (simp add: mlex_iff)
qed

section \<open>Critical paths and ordering\<close>

text \<open>
  \<open>forEach\<close> with a callback that returns a value and changes the state: the values are
  collected in order (the \<open>push\<close> onto \<open>depsLengths\<close>). The callback may not return, so
  the result is an option.
\<close>

fun forEachM :: "('a \<Rightarrow> 's \<Rightarrow> ('b \<times> 's) option) \<Rightarrow> 'a list \<Rightarrow> 's \<Rightarrow> ('b list \<times> 's) option" where
  "forEachM f [] s = Some ([], s)"
| "forEachM f (x # xs) s =
     Option.bind (f x s) (\<lambda>(y, s').
       Option.bind (forEachM f xs s') (\<lambda>(ys, s''). Some (y # ys, s'')))"

lemma forEachM_mono [partial_function_mono]:
  assumes "\<And>x s. mono_option (\<lambda>f. B f x s)"
  shows "mono_option (\<lambda>f. forEachM (B f) xs s)"
  using assms
proof (induction xs arbitrary: s)
  case Nil
  show ?case by (simp add: option.const_mono)
next
  case (Cons x xs)
  have inner: "mono_option (\<lambda>f. Option.bind (forEachM (B f) xs s') (\<lambda>p. Some (y # fst p, snd p)))"
    for s' y
    by (rule bind_mono [OF Cons.IH [OF Cons.prems] option.const_mono])
  show ?case
    unfolding forEachM.simps split_def
    by (rule bind_mono [OF Cons.prems inner])
qed

text \<open>The assignment \<open>task.criticalPathLength = n\<close>.\<close>

definition setLength :: "string \<Rightarrow> nat \<Rightarrow> registry \<Rightarrow> registry" where
  "setLength k n ts = updateTask k (\<lambda>t. t\<lparr>criticalPathLength := Some n\<rparr>) ts"

text \<open>
  \<open>_calculateCriticalPaths\<close> recurses through \<open>dependents\<close> with no guard of its own, so
  on a cycle it does not return: \<open>None\<close>. The first \<open>None\<close> below stands for a reference to
  a task object that is not in the map, which no collection built through the class has
  (\<open>wellFormed\<close> below). \<open>Math.max\<close> is applied to a list that is not empty here.
\<close>

partial_function (option) calculateCriticalPaths :: "string \<Rightarrow> registry \<Rightarrow> (nat \<times> registry) option" where
  "calculateCriticalPaths task ts =
     (case map_of ts task of
        None \<Rightarrow> None
      | Some t \<Rightarrow>
         (case criticalPathLength t of
            Some n \<Rightarrow> Some (n, ts)
          | None \<Rightarrow>
              if dependents t = [] then Some (0, setLength task 0 ts)
              else Option.bind (forEachM calculateCriticalPaths (dependents t) ts)
                     (\<lambda>(depsLengths, ts').
                        let n = Max (set depsLengths) + 1 in Some (n, setLength task n ts'))))"

declare calculateCriticalPaths.simps [code]

text \<open>
  The sort key \<open>-task.criticalPathLength!\<close>. On \<open>undefined\<close> the source computes \<open>NaN\<close>;
  \<open>getOrderedTasks\<close> reads the key only after every task has its length, so that branch
  is given a placeholder.
\<close>

definition negatedLength :: "ITask \<Rightarrow> int" where
  "negatedLength task = (case criticalPathLength task of Some n \<Rightarrow> - int n | None \<Rightarrow> 0)"

text \<open>
  Modelled from the spec: \<open>Sort.sortBy\<close> belongs to the library
  \<open>@microsoft/node-core-library\<close>, whose code is not at hand. The specification calls it a
  stable sort by the key, so it is the stable insertion sort by key, ascending in the key.
\<close>

definition sortBy :: "('a \<Rightarrow> int) \<Rightarrow> 'a list \<Rightarrow> 'a list" where
  "sortBy keySelector array = sort_key keySelector array"

text \<open>
  \<open>getOrderedTasks\<close>: \<open>this._tasks.values()\<close> and both \<open>forEach\<close> loops run over the map
  in insertion order, each task denoted by the name it is stored under. The set of checked
  names is local to the call. The result is \<open>None\<close> when the critical-path pass does not
  return.
\<close>

definition getOrderedTasks :: "TaskCollection \<Rightarrow> ((error + ITask list) \<times> TaskCollection) option" where
  "getOrderedTasks c =
     (case checkForCyclicDependencies (tasks c) (map fst (tasks c)) [] [] of
        Inl e \<Rightarrow> Some (Inl e, c)
      | Inr alreadyChecked \<Rightarrow>
          Option.bind (forEachM calculateCriticalPaths (map fst (tasks c)) (tasks c))
            (\<lambda>(lengths, ts'). Some (Inr (sortBy negatedLength (map snd ts')), c\<lparr>tasks := ts'\<rparr>)))"

section \<open>Sequences of calls\<close>

text \<open>
  The public methods as operations, and the collection a sequence of calls leaves, whether
  the calls return or throw. \<open>hasTask\<close> changes nothing. A call of \<open>getOrderedTasks\<close>
  that does not return leaves no collection.
\<close>

datatype operation =
    AddTask ITaskDefinition
  | AddDependencies string "string list option"
  | HasTask string
  | GetOrderedTasks

fun perform :: "operation \<Rightarrow> TaskCollection \<Rightarrow> TaskCollection option" where
  "perform (AddTask taskDefinition) c = Some (snd (addTask taskDefinition c))"
| "perform (AddDependencies taskName taskDependencies) c =
     Some (snd (addDependencies taskName taskDependencies c))"
| "perform (HasTask taskName) c = Some c"
| "perform GetOrderedTasks c = map_option snd (getOrderedTasks c)"

fun performAll :: "operation list \<Rightarrow> TaskCollection \<Rightarrow> TaskCollection option" where
  "performAll [] c = Some c"
| "performAll (operation # rest) c = Option.bind (perform operation c) (performAll rest)"

section \<open>Example collections\<close>

text \<open>Tasks A and B, registered in this order, with no dependency.\<close>

definition twoTasks :: TaskCollection where
  "twoTasks =
     \<lparr>tasks =
        [(''A'', \<lparr>name = ''A'', dependencies = [], dependents = [], status = Ready,
                  criticalPathLength = None\<rparr>),
         (''B'', \<lparr>name = ''B'', dependencies = [], dependents = [], status = Ready,
                  criticalPathLength = None\<rparr>)],
      quietMode = True, terminal = []\<rparr>"

text \<open>
  Task R with the cycle of A and B behind it: A depends on R and on B, B depends on A.
\<close>

definition leadIn :: TaskCollection where
  "leadIn =
     \<lparr>tasks =
        [(''R'', \<lparr>name = ''R'', dependencies = [], dependents = [''A''], status = Ready,
                  criticalPathLength = None\<rparr>),
         (''A'', \<lparr>name = ''A'', dependencies = [''R'', ''B''], dependents = [''B''],
                  status = Ready, criticalPathLength = None\<rparr>),
         (''B'', \<lparr>name = ''B'', dependencies = [''A''], dependents = [''A''], status = Ready,
                  criticalPathLength = None\<rparr>)],
      quietMode = True, terminal = []\<rparr>"

text \<open>
  The chain of the first end-to-end scenario: C depends on B, B depends on A.
\<close>

definition chainABC :: TaskCollection where
  "chainABC =
     \<lparr>tasks =
        [(''A'', \<lparr>name = ''A'', dependencies = [], dependents = [''B''], status = Ready,
                  criticalPathLength = None\<rparr>),
         (''B'', \<lparr>name = ''B'', dependencies = [''A''], dependents = [''C''], status = Ready,
                  criticalPathLength = None\<rparr>),
         (''C'', \<lparr>name = ''C'', dependencies = [''B''], dependents = [], status = Ready,
                  criticalPathLength = None\<rparr>)],
      quietMode = True, terminal = []\<rparr>"

definition chainOperations :: "operation list" where
  "chainOperations =
     [AddTask \<lparr>name = ''A''\<rparr>, AddTask \<lparr>name = ''B''\<rparr>, AddTask \<lparr>name = ''C''\<rparr>,
      AddDependencies ''C'' (Some [''B'']), AddDependencies ''B'' (Some [''A''])]"

text \<open>
  A and B after an ordering that was followed by the declaration that B depends on A.
\<close>

definition staleAB :: TaskCollection where
  "staleAB =
     \<lparr>tasks =
        [(''A'', \<lparr>name = ''A'', dependencies = [], dependents = [''B''], status = Ready,
                  criticalPathLength = Some 0\<rparr>),
         (''B'', \<lparr>name = ''B'', dependencies = [''A''], dependents = [], status = Ready,
                  criticalPathLength = Some 0\<rparr>)],
      quietMode = True, terminal = []\<rparr>"

text \<open>
  B and C both depend on A, which is registered last; the result of ordering them.
\<close>

definition forkOperations :: "operation list" where
  "forkOperations =
     [AddTask \<lparr>name = ''B''\<rparr>, AddTask \<lparr>name = ''C''\<rparr>, AddTask \<lparr>name = ''A''\<rparr>,
      AddDependencies ''B'' (Some [''A'']), AddDependencies ''C'' (Some [''A''])]"

definition forkBCA :: TaskCollection where
  "forkBCA =
     \<lparr>tasks =
        [(''B'', \<lparr>name = ''B'', dependencies = [''A''], dependents = [], status = Ready,
                  criticalPathLength = None\<rparr>),
         (''C'', \<lparr>name = ''C'', dependencies = [''A''], dependents = [], status = Ready,
                  criticalPathLength = None\<rparr>),
         (''A'', \<lparr>name = ''A'', dependencies = [], dependents = [''B'', ''C''], status = Ready,
                  criticalPathLength = None\<rparr>)],
      quietMode = True, terminal = []\<rparr>"

definition forkOrdered :: "ITask list" where
  "forkOrdered =
     [\<lparr>name = ''A'', dependencies = [], dependents = [''B'', ''C''], status = Ready,
        criticalPathLength = Some 1\<rparr>,
      \<lparr>name = ''B'', dependencies = [''A''], dependents = [], status = Ready,
        criticalPathLength = Some 0\<rparr>,
      \<lparr>name = ''C'', dependencies = [''A''], dependents = [], status = Ready,
        criticalPathLength = Some 0\<rparr>]"

definition forkAfter :: TaskCollection where
  "forkAfter =
     \<lparr>tasks =
        [(''B'', \<lparr>name = ''B'', dependencies = [''A''], dependents = [], status = Ready,
                  criticalPathLength = Some 0\<rparr>),
         (''C'', \<lparr>name = ''C'', dependencies = [''A''], dependents = [], status = Ready,
                  criticalPathLength = Some 0\<rparr>),
         (''A'', \<lparr>name = ''A'', dependencies = [], dependents = [''B'', ''C''], status = Ready,
                  criticalPathLength = Some 1\<rparr>)],
      quietMode = True, terminal = []\<rparr>"

text \<open>A sequence that mixes calls that return with calls that throw.\<close>

definition mixedOperations :: "operation list" where
  "mixedOperations =
     [AddTask \<lparr>name = ''A''\<rparr>, AddTask \<lparr>name = ''B''\<rparr>,
      AddDependencies ''A'' (Some [''B'', ''Z'']), HasTask ''A'', GetOrderedTasks,
      AddTask \<lparr>name = ''A''\<rparr>, AddDependencies ''B'' None, AddTask \<lparr>name = ''C''\<rparr>,
      AddDependencies ''C'' (Some [''A''])]"

section \<open>Registration: properties\<close>

subsection \<open>Updates of the map\<close>

lemma map_of_updateTask:
  "map_of (updateTask k f ts) a = (if a = k then map_option f (map_of ts k) else map_of ts a)"
  by (induction ts) (auto simp: updateTask_def)

lemma keys_updateTask: "map fst (updateTask k f ts) = map fst ts"
  by (induction ts) (auto simp: updateTask_def)

lemma has_updateTask: "has (updateTask k f ts) a = has ts a"
  by (simp add: has_def map_of_updateTask)

lemma has_addEdge: "has (addEdge n d ts) a = has ts a"
  by (simp add: addEdge_def has_updateTask)

lemma keys_addEdge: "map fst (addEdge n d ts) = map fst ts"
  by (simp add: addEdge_def keys_updateTask)

lemma has_iff_key: "has ts k \<longleftrightarrow> k \<in> fst ` set ts"
  by (simp add: has_def map_of_eq_None_iff)

lemma dependenciesOf_addEdge:
  "dependenciesOf (addEdge n d ts) a =
     (if a = n \<and> has ts n then setAdd (dependenciesOf ts a) d else dependenciesOf ts a)"
  by (cases "map_of ts a")
     (auto simp: dependenciesOf_def addEdge_def map_of_updateTask setAdd_def has_def)

lemma dependentsOf_addEdge:
  "dependentsOf (addEdge n d ts) a =
     (if a = d \<and> has ts d then setAdd (dependentsOf ts a) n else dependentsOf ts a)"
  by (cases "map_of ts a")
     (auto simp: dependentsOf_def addEdge_def map_of_updateTask setAdd_def has_def)

lemma set_setAdd: "set (setAdd xs x) = insert x (set xs)"
  by (auto simp: setAdd_def)

lemma setAdd_present: "x \<in> set xs \<Longrightarrow> setAdd xs x = xs"
  by (simp add: setAdd_def)

text \<open>An edge that is present on every entry it concerns: adding it again changes nothing.\<close>

definition edgePresent :: "string \<Rightarrow> string \<Rightarrow> registry \<Rightarrow> bool" where
  "edgePresent n d ts \<longleftrightarrow>
     (\<forall>t. (n, t) \<in> set ts \<longrightarrow> d \<in> set (dependencies t)) \<and>
     (\<forall>t. (d, t) \<in> set ts \<longrightarrow> n \<in> set (dependents t))"

lemma updateTask_alt:
  "updateTask k f ts = map (\<lambda>p. (fst p, if fst p = k then f (snd p) else snd p)) ts"
  unfolding updateTask_def by (rule map_cong) auto

lemma updateTask_id: "(\<And>t. (k, t) \<in> set ts \<Longrightarrow> f t = t) \<Longrightarrow> updateTask k f ts = ts"
  unfolding updateTask_alt by (rule map_idI) auto

lemma in_updateTask:
  "(k', t') \<in> set (updateTask k f ts) \<longleftrightarrow>
     (\<exists>t. (k', t) \<in> set ts \<and> t' = (if k' = k then f t else t))"
  unfolding updateTask_alt by (force simp: image_iff)

lemma addEdge_present:
  assumes "edgePresent n d ts"
  shows "addEdge n d ts = ts"
proof -
  have 1: "updateTask n (\<lambda>t. t\<lparr>dependencies := setAdd (dependencies t) d\<rparr>) ts = ts"
    using assms by (intro updateTask_id) (simp add: edgePresent_def setAdd_present)
  have 2: "updateTask d (\<lambda>t. t\<lparr>dependents := setAdd (dependents t) n\<rparr>) ts = ts"
    using assms by (intro updateTask_id) (simp add: edgePresent_def setAdd_present)
  show ?thesis by (simp add: addEdge_def 1 2)
qed

lemma in_addEdge:
  assumes "(k, t') \<in> set (addEdge n d ts)"
  shows "\<exists>t. (k, t) \<in> set ts
           \<and> dependencies t' = (if k = n then setAdd (dependencies t) d else dependencies t)
           \<and> dependents t' = (if k = d then setAdd (dependents t) n else dependents t)"
proof -
  from assms obtain t1 where
    t1: "(k, t1) \<in> set (updateTask n (\<lambda>t. t\<lparr>dependencies := setAdd (dependencies t) d\<rparr>) ts)"
    and t': "t' = (if k = d then t1\<lparr>dependents := setAdd (dependents t1) n\<rparr> else t1)"
    unfolding addEdge_def in_updateTask by blast
  from t1 obtain t where t: "(k, t) \<in> set ts"
    and t1': "t1 = (if k = n then t\<lparr>dependencies := setAdd (dependencies t) d\<rparr> else t)"
    unfolding in_updateTask by blast
  show ?thesis using t t' t1' by (intro exI [of _ t]) simp
qed

lemma edgePresent_addEdge_same: "edgePresent n d (addEdge n d ts)"
  unfolding edgePresent_def
proof (intro conjI allI impI)
  fix t assume "(n, t) \<in> set (addEdge n d ts)"
  from in_addEdge [OF this] show "d \<in> set (dependencies t)" by (auto simp: set_setAdd)
next
  fix t assume "(d, t) \<in> set (addEdge n d ts)"
  from in_addEdge [OF this] show "n \<in> set (dependents t)" by (auto simp: set_setAdd)
qed

lemma edgePresent_addEdge_other:
  assumes "edgePresent n d ts"
  shows "edgePresent n d (addEdge n e ts)"
  unfolding edgePresent_def
proof (intro conjI allI impI)
  fix t assume "(n, t) \<in> set (addEdge n e ts)"
  from in_addEdge [OF this] assms show "d \<in> set (dependencies t)"
    by (auto simp: set_setAdd edgePresent_def)
next
  fix t assume "(d, t) \<in> set (addEdge n e ts)"
  from in_addEdge [OF this] assms show "n \<in> set (dependents t)"
    by (auto simp: set_setAdd edgePresent_def split: if_splits)
qed

lemma loop_result_has:
  "addDependenciesLoop n ds ts = (r, ts') \<Longrightarrow> has ts' a = has ts a"
  by (induction ds arbitrary: ts) (auto simp: has_addEdge split: if_splits)

lemma loop_keeps_present:
  "edgePresent n d ts \<Longrightarrow> edgePresent n d (snd (addDependenciesLoop n ds ts))"
  by (induction ds arbitrary: ts) (auto simp: edgePresent_addEdge_other)

lemma loop_success:
  "\<forall>d \<in> set ds. has ts d \<Longrightarrow> fst (addDependenciesLoop n ds ts) = Inr ()"
  by (induction ds arbitrary: ts) (auto simp: has_addEdge)

lemma loop_makes_present:
  "\<forall>d \<in> set ds. has ts d \<Longrightarrow> d \<in> set ds \<Longrightarrow> edgePresent n d (snd (addDependenciesLoop n ds ts))"
proof (induction ds arbitrary: ts)
  case Nil
  then show ?case by simp
next
  case (Cons e ds)
  show ?case
  proof (cases "d = e")
    case True
    have "edgePresent n d (addEdge n e ts)" using True by (simp add: edgePresent_addEdge_same)
    then show ?thesis using Cons.prems by (simp add: loop_keeps_present)
  next
    case False
    then show ?thesis using Cons by (simp add: has_addEdge)
  qed
qed

lemma loop_again:
  "\<forall>d \<in> set ds. has ts d \<and> edgePresent n d ts \<Longrightarrow> addDependenciesLoop n ds ts = (Inr (), ts)"
  by (induction ds) (auto simp: addEdge_present)

lemma loop_append:
  "addDependenciesLoop n (xs @ ys) ts =
     (case addDependenciesLoop n xs ts of
        (Inl e, ts') \<Rightarrow> (Inl e, ts')
      | (Inr u, ts') \<Rightarrow> addDependenciesLoop n ys ts')"
  by (induction xs arbitrary: ts) auto

subsection \<open>Duplicate registration\<close>

text \<open>
  C8: for every collection and every task definition whose name is already registered,
  \<open>addTask\<close> fails with the duplicate-registration error and returns the collection it was
  given, unchanged (so the registered task's dependencies and dependents are unchanged).
\<close>

theorem addTask_duplicate_fails_unchanged:
  "has (tasks c) (name taskDefinition) \<Longrightarrow> addTask taskDefinition c = (Inl AlreadyRegistered, c)"
  by (simp add: addTask_def)

theorem addTask_duplicate_fails_unchanged_witness:
  "has (tasks twoTasks) (name \<lparr>name = ''A''\<rparr>)
   \<and> addTask \<lparr>name = ''A''\<rparr> twoTasks = (Inl AlreadyRegistered, twoTasks)"
proof -
  have h: "has (tasks twoTasks) (name \<lparr>name = ''A''\<rparr>)" by code_simp
  from addTask_duplicate_fails_unchanged [OF h] h show ?thesis by simp
qed

subsection \<open>Declaring dependencies twice\<close>

text \<open>
  C7: \<open>addDependencies\<close> is idempotent. For a registered task name and a list of
  registered dependency names the call succeeds, and the same call on the collection it
  leaves succeeds and leaves that very collection: the same sets of dependencies and
  dependents, and so the same critical-path lengths later.
\<close>

theorem addDependencies_idempotent:
  assumes "has (tasks c) taskName" and "\<forall>d \<in> set deps. has (tasks c) d"
  shows "\<exists>c'. addDependencies taskName (Some deps) c = (Inr (), c')
            \<and> addDependencies taskName (Some deps) c' = (Inr (), c')"
proof -
  obtain r ts' where l: "addDependenciesLoop taskName deps (tasks c) = (r, ts')"
    by (cases "addDependenciesLoop taskName deps (tasks c)")
  from loop_success [OF assms(2), of taskName] l have r: "r = Inr ()" by simp
  have h: "has ts' a = has (tasks c) a" for a using l by (rule loop_result_has)
  have "\<forall>d \<in> set deps. has ts' d \<and> edgePresent taskName d ts'"
    using loop_makes_present [OF assms(2), of _ taskName] l assms(2) by (auto simp: h)
  then have again: "addDependenciesLoop taskName deps ts' = (Inr (), ts')" by (rule loop_again)
  show ?thesis
    using assms(1) l r again h by (simp add: addDependencies_def)
qed

theorem addDependencies_idempotent_witness:
  "has (tasks twoTasks) ''A'' \<and> has (tasks twoTasks) ''B''
   \<and> (\<exists>c'. addDependencies ''A'' (Some [''B'', ''B'']) twoTasks = (Inr (), c')
           \<and> addDependencies ''A'' (Some [''B'', ''B'']) c' = (Inr (), c'))"
proof -
  have a: "has (tasks twoTasks) ''A''" by code_simp
  have b: "has (tasks twoTasks) ''B''" by code_simp
  have ds: "\<forall>d \<in> set [''B'', ''B'']. has (tasks twoTasks) d" using b by simp
  from addDependencies_idempotent [OF a ds] a b show ?thesis by simp
qed

section \<open>Cycle detection: properties\<close>

text \<open>
  The graph that both traversals walk: an edge from a task to each of its dependents. A
  path follows these edges.
\<close>

definition dependentEdges :: "registry \<Rightarrow> (string \<times> string) set" where
  "dependentEdges ts = {(a, b). b \<in> set (dependentsOf ts a)}"

definition isPath :: "registry \<Rightarrow> string list \<Rightarrow> bool" where
  "isPath ts xs = successively (\<lambda>a b. b \<in> set (dependentsOf ts a)) xs"

lemma isPath_snoc:
  "isPath ts (xs @ [y]) \<longleftrightarrow> isPath ts xs \<and> (xs = [] \<or> y \<in> set (dependentsOf ts (last xs)))"
  by (auto simp: isPath_def successively_append_iff)

lemma isPath_single: "isPath ts [x]"
  by (simp add: isPath_def)

lemma isPath_trancl:
  "isPath ts (x # xs @ [y]) \<Longrightarrow> (x, y) \<in> (dependentEdges ts)\<^sup>+"
proof (induction xs arbitrary: x)
  case Nil
  then have "(x, y) \<in> dependentEdges ts" by (simp add: isPath_def dependentEdges_def)
  then show ?case by (rule r_into_trancl)
next
  case (Cons z zs)
  from Cons.prems have "(x, z) \<in> dependentEdges ts" and "isPath ts (z # zs @ [y])"
    by (simp_all add: isPath_def dependentEdges_def)
  with Cons.IH show ?case by (meson trancl_into_trancl2)
qed

lemma isPath_suffix: "isPath ts (xs @ ys) \<Longrightarrow> isPath ts ys"
  by (simp add: isPath_def successively_append_iff)

lemma path_back_is_cycle:
  assumes "isPath ts (xs @ [t])" and "t \<in> set xs"
  shows "(t, t) \<in> (dependentEdges ts)\<^sup>+"
proof -
  from assms(2) obtain as bs where "xs = as @ t # bs" by (meson split_list)
  with assms(1) have "isPath ts (as @ (t # bs @ [t]))" by simp
  then have "isPath ts (t # bs @ [t])" by (rule isPath_suffix)
  then show ?thesis by (rule isPath_trancl)
qed

text \<open>
  What a thrown error looks like: the chain at the time of the throw, extended by the
  names entered since, with the repeated name at its end.
\<close>

lemma check_error_shape:
  assumes "checkForCyclicDependencies ts xs chain checked = Inl e"
    and "isPath ts chain" and "distinct chain"
    and "chain \<noteq> [] \<Longrightarrow> set xs \<subseteq> set (dependentsOf ts (last chain))"
  shows "\<exists>more t. e = CyclicDependency (rev (chain @ more @ [t]))
           \<and> isPath ts (chain @ more @ [t]) \<and> distinct (chain @ more)
           \<and> t \<in> set (chain @ more) \<and> (chain = [] \<longrightarrow> more \<noteq> [] \<and> hd more \<in> set xs)"
  using assms
proof (induction ts xs chain checked rule: checkForCyclicDependencies.induct)
  case (1 ts chain checked)
  then show ?case by simp
next
  case (2 ts t rest chain checked)
  show ?case
  proof (cases "t \<in> set chain")
    case True
    then have ne: "chain \<noteq> []" by auto
    from True "2.prems"(1) have e: "e = CyclicDependency (rev (chain @ [] @ [t]))" by simp
    have "isPath ts (chain @ [] @ [t])"
      using "2.prems"(2) "2.prems"(4) [OF ne] ne by (simp add: isPath_snoc)
    with e True "2.prems"(3) ne show ?thesis by (intro exI [of _ "[]"] exI [of _ t]) simp
  next
    case notin: False
    show ?thesis
    proof (cases "t \<in> set checked")
      case True
      with notin "2.prems"(1) have r: "checkForCyclicDependencies ts rest chain checked = Inl e"
        by simp
      from "2.IH"(3) [OF notin _ r "2.prems"(2,3)] True "2.prems"(4)
      obtain more u where "e = CyclicDependency (rev (chain @ more @ [u]))"
        "isPath ts (chain @ more @ [u])" "distinct (chain @ more)" "u \<in> set (chain @ more)"
        "chain = [] \<longrightarrow> more \<noteq> [] \<and> hd more \<in> set rest" by auto
      then show ?thesis by (intro exI [of _ more] exI [of _ u]) simp
    next
      case fresh: False
      have p: "isPath ts (chain @ [t])"
        using "2.prems"(2) "2.prems"(4) by (cases "chain = []") (auto simp: isPath_snoc isPath_single)
      have d: "distinct (chain @ [t])" using "2.prems"(3) notin by simp
      have s: "set (dependentsOf ts t) \<subseteq> set (dependentsOf ts (last (chain @ [t])))" by simp
      show ?thesis
      proof (cases "checkForCyclicDependencies ts (dependentsOf ts t) (chain @ [t]) (checked @ [t])")
        case (Inl e')
        with notin fresh "2.prems"(1) have "e' = e" by simp
        with Inl "2.IH"(1) [OF notin fresh _ p d s]
        obtain more u where m: "e = CyclicDependency (rev ((chain @ [t]) @ more @ [u]))"
          "isPath ts ((chain @ [t]) @ more @ [u])" "distinct ((chain @ [t]) @ more)"
          "u \<in> set ((chain @ [t]) @ more)" by auto
        show ?thesis
          using m by (intro exI [of _ "t # more"] exI [of _ u]) simp
      next
        case (Inr c1)
        with notin fresh "2.prems"(1)
        have r: "checkForCyclicDependencies ts rest chain c1 = Inl e" by simp
        from "2.IH"(2) [OF notin fresh Inr r "2.prems"(2,3)] "2.prems"(4)
        obtain more u where "e = CyclicDependency (rev (chain @ more @ [u]))"
          "isPath ts (chain @ more @ [u])" "distinct (chain @ more)" "u \<in> set (chain @ more)"
          "chain = [] \<longrightarrow> more \<noteq> [] \<and> hd more \<in> set rest" by auto
        then show ?thesis by (intro exI [of _ more] exI [of _ u]) simp
      qed
    qed
  qed
qed

text \<open>
  A set of finished names: closed under \<open>dependents\<close>, and none of its names on a cycle.
\<close>

definition finishedOK :: "registry \<Rightarrow> string set \<Rightarrow> bool" where
  "finishedOK ts F \<longleftrightarrow>
     (\<forall>u \<in> F. set (dependentsOf ts u) \<subseteq> F) \<and> (\<forall>u \<in> F. (u, u) \<notin> (dependentEdges ts)\<^sup>+)"

lemma closed_rtrancl:
  assumes "\<forall>u \<in> F. set (dependentsOf ts u) \<subseteq> F"
    and "(a, b) \<in> (dependentEdges ts)\<^sup>*" and "a \<in> F"
  shows "b \<in> F"
  using assms(2,3)
proof (induction rule: rtrancl_induct)
  case base
  then show ?case .
next
  case (step y z)
  then have "y \<in> F" by simp
  with assms(1) step.hyps(2) show ?case by (auto simp: dependentEdges_def)
qed

lemma finishedOK_add:
  assumes ok: "finishedOK ts F" and deps: "set (dependentsOf ts t) \<subseteq> F" and t: "t \<notin> F"
  shows "finishedOK ts (insert t F)"
proof -
  have closed: "\<forall>u \<in> F. set (dependentsOf ts u) \<subseteq> F" using ok by (simp add: finishedOK_def)
  have "(t, t) \<notin> (dependentEdges ts)\<^sup>+"
  proof
    assume "(t, t) \<in> (dependentEdges ts)\<^sup>+"
    then obtain d where d: "(t, d) \<in> dependentEdges ts" and dt: "(d, t) \<in> (dependentEdges ts)\<^sup>*"
      by (meson tranclD)
    from d deps have "d \<in> F" by (auto simp: dependentEdges_def)
    with closed_rtrancl [OF closed dt] have "t \<in> F" by simp
    with t show False by simp
  qed
  with ok deps show ?thesis by (auto simp: finishedOK_def)
qed

lemma check_ok_finished:
  assumes "checkForCyclicDependencies ts xs chain checked = Inr checked'"
    and "finishedOK ts (set checked - set chain)"
  shows "set checked \<subseteq> set checked' \<and> finishedOK ts (set checked' - set chain)
           \<and> set xs \<subseteq> set checked' - set chain"
  using assms
proof (induction ts xs chain checked arbitrary: checked' rule: checkForCyclicDependencies.induct)
  case (1 ts chain checked)
  then show ?case by simp
next
  case (2 ts t rest chain checked)
  show ?case
  proof (cases "t \<in> set chain")
    case True
    with "2.prems"(1) show ?thesis by simp
  next
    case notin: False
    show ?thesis
    proof (cases "t \<in> set checked")
      case True
      with notin "2.prems"(1) have r: "checkForCyclicDependencies ts rest chain checked = Inr checked'"
        by simp
      from "2.IH"(3) [OF notin _ r "2.prems"(2)] True notin show ?thesis by auto
    next
      case fresh: False
      from notin fresh "2.prems"(1) obtain c1 where
        c1: "checkForCyclicDependencies ts (dependentsOf ts t) (chain @ [t]) (checked @ [t]) = Inr c1"
        and r: "checkForCyclicDependencies ts rest chain c1 = Inr checked'"
        by (auto split: sum.splits)
      have "set (checked @ [t]) - set (chain @ [t]) = set checked - set chain"
        using fresh by auto
      with "2.prems"(2) have "finishedOK ts (set (checked @ [t]) - set (chain @ [t]))" by simp
      from "2.IH"(1) [OF notin fresh c1 this]
      have g1: "set (checked @ [t]) \<subseteq> set c1"
        and f1: "finishedOK ts (set c1 - set (chain @ [t]))"
        and d1: "set (dependentsOf ts t) \<subseteq> set c1 - set (chain @ [t])" by auto
      have "set c1 - set chain = insert t (set c1 - set (chain @ [t]))"
        using g1 notin by auto
      moreover have "finishedOK ts (insert t (set c1 - set (chain @ [t])))"
        using f1 d1 by (rule finishedOK_add) simp
      ultimately have f2: "finishedOK ts (set c1 - set chain)" by simp
      from "2.IH"(2) [OF notin fresh c1 r f2] g1 notin show ?thesis by auto
    qed
  qed
qed

lemma finishedOK_empty: "finishedOK ts {}"
  by (simp add: finishedOK_def)

lemma edge_source_registered: "(a, b) \<in> dependentEdges ts \<Longrightarrow> a \<in> fst ` set ts"
proof -
  assume "(a, b) \<in> dependentEdges ts"
  then have "map_of ts a \<noteq> None"
    by (cases "map_of ts a") (simp_all add: dependentEdges_def dependentsOf_def)
  then show ?thesis by (simp add: map_of_eq_None_iff)
qed

lemma check_ok_acyclic:
  assumes "checkForCyclicDependencies ts (map fst ts) [] [] = Inr checked"
  shows "acyclic (dependentEdges ts)"
proof -
  have "finishedOK ts (set [] - set [])" by (simp add: finishedOK_empty)
  from check_ok_finished [OF assms this]
  have f: "finishedOK ts (set checked)" and k: "fst ` set ts \<subseteq> set checked" by auto
  show ?thesis
  proof (rule acyclicI, intro allI notI)
    fix x assume x: "(x, x) \<in> (dependentEdges ts)\<^sup>+"
    then obtain y where "(x, y) \<in> dependentEdges ts" by (meson tranclD)
    then have "x \<in> set checked" using k edge_source_registered by blast
    with f x show False by (simp add: finishedOK_def)
  qed
qed

lemma check_error_cyclic:
  assumes "checkForCyclicDependencies ts (map fst ts) [] [] = Inl e"
  shows "\<not> acyclic (dependentEdges ts)"
proof -
  from check_error_shape [OF assms] obtain more t where
    "isPath ts (more @ [t])" "t \<in> set more" by (auto simp: isPath_def)
  then have "(t, t) \<in> (dependentEdges ts)\<^sup>+" by (rule path_back_is_cycle)
  then show ?thesis by (auto simp: acyclic_def)
qed

lemma check_ok_iff_acyclic:
  "(\<exists>checked. checkForCyclicDependencies ts (map fst ts) [] [] = Inr checked)
     \<longleftrightarrow> acyclic (dependentEdges ts)"
  using check_ok_acyclic check_error_cyclic
  by (cases "checkForCyclicDependencies ts (map fst ts) [] []") auto

lemma getOrderedTasks_cyclic:
  assumes "\<not> acyclic (dependentEdges (tasks c))"
  shows "\<exists>lead t cyc.
           getOrderedTasks c = Some (Inl (CyclicDependency (rev (lead @ t # cyc @ [t]))), c)
           \<and> isPath (tasks c) (lead @ t # cyc @ [t]) \<and> distinct (lead @ t # cyc)
           \<and> has (tasks c) (hd (lead @ [t]))"
proof (cases "checkForCyclicDependencies (tasks c) (map fst (tasks c)) [] []")
  case (Inr checked)
  then have "acyclic (dependentEdges (tasks c))" by (rule check_ok_acyclic)
  with assms show ?thesis by simp
next
  case (Inl e)
  from check_error_shape [OF Inl] obtain more t where
    e: "e = CyclicDependency (rev (more @ [t]))" and p: "isPath (tasks c) (more @ [t])"
    and d: "distinct more" and t: "t \<in> set more" and h: "hd more \<in> fst ` set (tasks c)"
    by (auto simp: isPath_def)
  from t obtain lead cyc where m: "more = lead @ t # cyc" by (meson split_list)
  have "hd more = hd (lead @ [t])" using m by (cases lead) simp_all
  with h have "has (tasks c) (hd (lead @ [t]))" by (simp add: has_iff_key)
  moreover have "getOrderedTasks c = Some (Inl e, c)" using Inl by (simp add: getOrderedTasks_def)
  ultimately show ?thesis
    using e p d m by (intro exI [of _ lead] exI [of _ t] exI [of _ cyc]) simp
qed

text \<open>A task reaches a cycle when some task on a cycle can be reached from it.\<close>

definition reachesCycle :: "registry \<Rightarrow> string \<Rightarrow> bool" where
  "reachesCycle ts k \<longleftrightarrow>
     (\<exists>u. (k, u) \<in> (dependentEdges ts)\<^sup>* \<and> (u, u) \<in> (dependentEdges ts)\<^sup>+)"

lemma finished_reaches_no_cycle:
  assumes "finishedOK ts F" and "k \<in> F"
  shows "\<not> reachesCycle ts k"
proof
  assume "reachesCycle ts k"
  then obtain u where ku: "(k, u) \<in> (dependentEdges ts)\<^sup>*"
    and uu: "(u, u) \<in> (dependentEdges ts)\<^sup>+" unfolding reachesCycle_def by blast
  have closed: "\<forall>u \<in> F. set (dependentsOf ts u) \<subseteq> F" using assms(1) by (simp add: finishedOK_def)
  from closed_rtrancl [OF closed ku assms(2)] have "u \<in> F" .
  with assms(1) uu show False by (simp add: finishedOK_def)
qed

lemma path_reaches_cycle:
  assumes "isPath ts (r # mid @ [t])" and "t \<in> set (r # mid)"
  shows "reachesCycle ts r"
proof -
  from assms(2) obtain as bs where s: "r # mid = as @ t # bs" by (meson split_list)
  have cyc: "(t, t) \<in> (dependentEdges ts)\<^sup>+"
    using path_back_is_cycle [of ts "r # mid" t] assms by simp
  have "(r, t) \<in> (dependentEdges ts)\<^sup>*"
  proof (cases as)
    case Nil
    with s show ?thesis by simp
  next
    case (Cons a as')
    with s have r: "a = r" and m: "mid = as' @ t # bs" by simp_all
    from assms(1) m have "isPath ts ((r # as' @ [t]) @ bs @ [t])" by simp
    then have "isPath ts (r # as' @ [t])"
      unfolding isPath_def successively_append_iff by blast
    then have "(r, t) \<in> (dependentEdges ts)\<^sup>+" by (rule isPath_trancl)
    then show ?thesis by (rule trancl_into_rtrancl)
  qed
  with cyc show ?thesis unfolding reachesCycle_def by blast
qed

text \<open>
  The loop over the map: the roots in front of the one whose traversal throws were
  finished, so none of them reaches a cycle, and the chain of the error starts at that
  root.
\<close>

lemma check_roots_error:
  assumes "checkForCyclicDependencies ts xs [] checked = Inl e"
    and "finishedOK ts (set checked)"
  shows "\<exists>before root after mid t.
           xs = before @ root # after \<and> (\<forall>k \<in> set before. \<not> reachesCycle ts k)
           \<and> e = CyclicDependency (rev (root # mid @ [t]))
           \<and> isPath ts (root # mid @ [t]) \<and> distinct (root # mid) \<and> t \<in> set (root # mid)"
  using assms
proof (induction xs arbitrary: checked)
  case Nil
  then show ?case by simp
next
  case (Cons x rest)
  show ?case
  proof (cases "x \<in> set checked")
    case True
    with Cons.prems(1) have r: "checkForCyclicDependencies ts rest [] checked = Inl e" by simp
    from Cons.IH [OF r Cons.prems(2)] obtain before root after mid t where
      h: "rest = before @ root # after" "\<forall>k \<in> set before. \<not> reachesCycle ts k"
         "e = CyclicDependency (rev (root # mid @ [t]))"
         "isPath ts (root # mid @ [t])" "distinct (root # mid)" "t \<in> set (root # mid)"
      by blast
    have "\<not> reachesCycle ts x" using Cons.prems(2) True by (rule finished_reaches_no_cycle)
    with h show ?thesis
      by (intro exI [of _ "x # before"] exI [of _ root] exI [of _ after] exI [of _ mid]
          exI [of _ t]) simp
  next
    case fresh: False
    show ?thesis
    proof (cases "checkForCyclicDependencies ts (dependentsOf ts x) [x] (checked @ [x])")
      case (Inl e')
      with fresh Cons.prems(1) have "e' = e" by simp
      with Inl have i: "checkForCyclicDependencies ts (dependentsOf ts x) ([] @ [x]) (checked @ [x]) = Inl e"
        by simp
      have "\<exists>mid t. e = CyclicDependency (rev (([] @ [x]) @ mid @ [t]))
              \<and> isPath ts (([] @ [x]) @ mid @ [t]) \<and> distinct (([] @ [x]) @ mid)
              \<and> t \<in> set (([] @ [x]) @ mid)
              \<and> ([] @ [x] = [] \<longrightarrow> mid \<noteq> [] \<and> hd mid \<in> set (dependentsOf ts x))"
        by (rule check_error_shape [OF i]) (simp_all add: isPath_single)
      then obtain mid t where "e = CyclicDependency (rev (x # mid @ [t]))"
        "isPath ts (x # mid @ [t])" "distinct (x # mid)" "t \<in> set (x # mid)" by auto
      then show ?thesis
        by (intro exI [of _ "[]"] exI [of _ x] exI [of _ rest] exI [of _ mid] exI [of _ t]) simp
    next
      case (Inr c1)
      with fresh Cons.prems(1) have r: "checkForCyclicDependencies ts rest [] c1 = Inl e" by simp
      have "set (checked @ [x]) - set [x] = set checked" using fresh by auto
      with Cons.prems(2) have "finishedOK ts (set (checked @ [x]) - set [x])" by simp
      from check_ok_finished [OF Inr this]
      have g1: "set (checked @ [x]) \<subseteq> set c1" and f1: "finishedOK ts (set c1 - set [x])"
        and d1: "set (dependentsOf ts x) \<subseteq> set c1 - set [x]" by auto
      have "finishedOK ts (insert x (set c1 - set [x]))"
        using f1 d1 by (rule finishedOK_add) simp
      moreover have "insert x (set c1 - set [x]) = set c1" using g1 by auto
      ultimately have f2: "finishedOK ts (set c1)" by simp
      from Cons.IH [OF r f2] obtain before root after mid t where
        h: "rest = before @ root # after" "\<forall>k \<in> set before. \<not> reachesCycle ts k"
           "e = CyclicDependency (rev (root # mid @ [t]))"
           "isPath ts (root # mid @ [t])" "distinct (root # mid)" "t \<in> set (root # mid)"
        by blast
      have "x \<in> set c1" using g1 by auto
      with f2 have "\<not> reachesCycle ts x" by (rule finished_reaches_no_cycle)
      with h show ?thesis
        by (intro exI [of _ "x # before"] exI [of _ root] exI [of _ after] exI [of _ mid]
            exI [of _ t]) simp
    qed
  qed
qed

lemma getOrderedTasks_cyclic_root:
  assumes "\<not> acyclic (dependentEdges (tasks c))"
  shows "\<exists>lead t cyc before root after.
           getOrderedTasks c = Some (Inl (CyclicDependency (rev (lead @ t # cyc @ [t]))), c)
           \<and> isPath (tasks c) (lead @ t # cyc @ [t]) \<and> distinct (lead @ t # cyc)
           \<and> has (tasks c) (hd (lead @ [t]))
           \<and> map fst (tasks c) = before @ root # after
           \<and> hd (lead @ [t]) = root
           \<and> reachesCycle (tasks c) root
           \<and> (\<forall>k \<in> set before. \<not> reachesCycle (tasks c) k)"
proof (cases "checkForCyclicDependencies (tasks c) (map fst (tasks c)) [] []")
  case (Inr checked)
  then have "acyclic (dependentEdges (tasks c))" by (rule check_ok_acyclic)
  with assms show ?thesis by simp
next
  case (Inl e)
  have "finishedOK (tasks c) (set [])" by (simp add: finishedOK_empty)
  from check_roots_error [OF Inl this] obtain before root after mid t where
    keys: "map fst (tasks c) = before @ root # after"
    and none: "\<forall>k \<in> set before. \<not> reachesCycle (tasks c) k"
    and e: "e = CyclicDependency (rev (root # mid @ [t]))"
    and p: "isPath (tasks c) (root # mid @ [t])" and d: "distinct (root # mid)"
    and t: "t \<in> set (root # mid)" by blast
  from t obtain lead cyc where m: "root # mid = lead @ t # cyc" by (meson split_list)
  have hd: "hd (lead @ [t]) = root" using m by (cases lead) simp_all
  have "root \<in> fst ` set (tasks c)" using keys by (metis in_set_conv_decomp set_map)
  then have h: "has (tasks c) root" by (simp add: has_iff_key)
  have rc: "reachesCycle (tasks c) root" using p t by (rule path_reaches_cycle)
  have g: "getOrderedTasks c = Some (Inl e, c)" using Inl by (simp add: getOrderedTasks_def)
  have e': "e = CyclicDependency (rev (lead @ t # cyc @ [t]))"
    using e m by (metis append_Cons append_assoc)
  have p': "isPath (tasks c) (lead @ t # cyc @ [t])" using p m by (metis append_Cons append_assoc)
  have d': "distinct (lead @ t # cyc)" using d m by simp
  from g e' p' d' h hd keys rc none show ?thesis by blast
qed

text \<open>
  C3, as the specification states it, fails: the message lists the whole chain from the
  task where the traversal started, not only the cycle. The traversal of \<open>leadIn\<close> starts
  at R and finds the cycle of A and B; the message names R, which is on no cycle.
\<close>

theorem cycle_message_counterexample:
  "performAll [AddTask \<lparr>name = ''R''\<rparr>, AddTask \<lparr>name = ''A''\<rparr>, AddTask \<lparr>name = ''B''\<rparr>,
       AddDependencies ''A'' (Some [''R'']), AddDependencies ''B'' (Some [''A'']),
       AddDependencies ''A'' (Some [''B''])] (newTaskCollection True) = Some leadIn
   \<and> getOrderedTasks leadIn = Some (Inl (CyclicDependency [''A'', ''B'', ''A'', ''R'']), leadIn)
   \<and> (''R'', ''R'') \<notin> (dependentEdges (tasks leadIn))\<^sup>+"
proof (intro conjI)
  show "(''R'', ''R'') \<notin> (dependentEdges (tasks leadIn))\<^sup>+"
  proof
    assume "(''R'', ''R'') \<in> (dependentEdges (tasks leadIn))\<^sup>+"
    then obtain y where "(y, ''R'') \<in> dependentEdges (tasks leadIn)" by (meson tranclD2)
    then show False
      by (auto simp: dependentEdges_def dependentsOf_def leadIn_def split: if_splits)
  qed
qed code_simp+

text \<open>
  C3, amended: for every collection whose graph has a cycle, \<open>getOrderedTasks\<close> fails with
  the cyclic-dependency error and leaves the collection as it was. The list of the message
  is the reverse of \<open>lead @ t # cyc @ [t]\<close>, a path along \<open>dependents\<close> that
  starts at the root of the traversal that throws, which is the first registered task, in
  the order of registration, from which a cycle can be reached; that repeats no name
  before its end; and that ends with the cycle from \<open>t\<close> through \<open>cyc\<close> back to \<open>t\<close>.
  So \<open>lead\<close>, the way from that root to the cycle, is part of the message.
\<close>

theorem cyclic_graph_rejected:
  assumes "\<not> acyclic (dependentEdges (tasks c))"
  shows "\<exists>lead t cyc before root after.
           getOrderedTasks c = Some (Inl (CyclicDependency (rev (lead @ t # cyc @ [t]))), c)
           \<and> isPath (tasks c) (lead @ t # cyc @ [t]) \<and> distinct (lead @ t # cyc)
           \<and> has (tasks c) (hd (lead @ [t]))
           \<and> map fst (tasks c) = before @ root # after
           \<and> hd (lead @ [t]) = root
           \<and> reachesCycle (tasks c) root
           \<and> (\<forall>k \<in> set before. \<not> reachesCycle (tasks c) k)"
  using assms by (rule getOrderedTasks_cyclic_root)

theorem cyclic_graph_rejected_witness:
  "\<not> acyclic (dependentEdges (tasks leadIn))
   \<and> (\<exists>lead t cyc before root after.
           getOrderedTasks leadIn = Some (Inl (CyclicDependency (rev (lead @ t # cyc @ [t]))), leadIn)
           \<and> isPath (tasks leadIn) (lead @ t # cyc @ [t]) \<and> distinct (lead @ t # cyc)
           \<and> has (tasks leadIn) (hd (lead @ [t]))
           \<and> map fst (tasks leadIn) = before @ root # after
           \<and> hd (lead @ [t]) = root
           \<and> reachesCycle (tasks leadIn) root
           \<and> (\<forall>k \<in> set before. \<not> reachesCycle (tasks leadIn) k))"
proof -
  have "checkForCyclicDependencies (tasks leadIn) (map fst (tasks leadIn)) [] []
          = Inl (CyclicDependency [''A'', ''B'', ''A'', ''R''])" by code_simp
  then have h: "\<not> acyclic (dependentEdges (tasks leadIn))" by (rule check_error_cyclic)
  from cyclic_graph_rejected [OF h] h show ?thesis by simp
qed

lemma leadIn_root_reaches_cycle: "reachesCycle (tasks leadIn) ''R''"
proof -
  have "isPath (tasks leadIn) (''R'' # [''A'', ''B''] @ [''A''])"
    by (simp add: isPath_def dependentsOf_def leadIn_def)
  then show ?thesis by (rule path_reaches_cycle) simp
qed

text \<open>
  The message cut down to the cycle is not what the description of the message allows:
  in \<open>leadIn\<close> a message must start at R.
\<close>

lemma cycle_only_message_excluded:
  "\<not> (\<exists>lead t cyc before root after.
         [''A'', ''B'', ''A''] = rev (lead @ t # cyc @ [t])
         \<and> map fst (tasks leadIn) = before @ root # after
         \<and> hd (lead @ [t]) = root
         \<and> (\<forall>k \<in> set before. \<not> reachesCycle (tasks leadIn) k))"
proof
  assume "\<exists>lead t cyc before root after.
         [''A'', ''B'', ''A''] = rev (lead @ t # cyc @ [t])
         \<and> map fst (tasks leadIn) = before @ root # after
         \<and> hd (lead @ [t]) = root
         \<and> (\<forall>k \<in> set before. \<not> reachesCycle (tasks leadIn) k)"
  then obtain lead t cyc before root after where
    m: "[''A'', ''B'', ''A''] = rev (lead @ t # cyc @ [t])"
    and keys: "map fst (tasks leadIn) = before @ root # after"
    and hd: "hd (lead @ [t]) = root"
    and none: "\<forall>k \<in> set before. \<not> reachesCycle (tasks leadIn) k" by blast
  have l: "[''A'', ''B'', ''A''] = lead @ t # cyc @ [t]"
    using arg_cong [OF m, of rev] by (simp only: rev_rev_ident rev.simps append.simps)
  have "hd (lead @ [t]) = ''A''"
  proof (cases lead)
    case Nil
    with l show ?thesis by simp
  next
    case (Cons a ls)
    with l show ?thesis by simp
  qed
  with hd have root: "root = ''A''" by simp
  have "map fst (tasks leadIn) = [''R'', ''A'', ''B'']" by (simp add: leadIn_def)
  with keys root have "[''R'', ''A'', ''B''] = before @ ''A'' # after" by simp
  then have "''R'' \<in> set before" by (cases before) auto
  with none leadIn_root_reaches_cycle show False by blast
qed

subsection \<open>A task that depends on itself\<close>

text \<open>
  C9: \<open>addDependencies\<close> checks no cycle. For a registered task,
  \<open>addDependencies(name, [name])\<close> succeeds and puts the task into its own dependencies
  and dependents; \<open>getOrderedTasks\<close> on the collection it leaves fails with the
  cyclic-dependency error.
\<close>

theorem self_dependency_accepted_then_rejected:
  assumes "has (tasks c) taskName"
  shows "\<exists>c'. addDependencies taskName (Some [taskName]) c = (Inr (), c')
            \<and> taskName \<in> set (dependenciesOf (tasks c') taskName)
            \<and> taskName \<in> set (dependentsOf (tasks c') taskName)
            \<and> (\<exists>chain. getOrderedTasks c' = Some (Inl (CyclicDependency chain), c'))"
proof -
  let ?c' = "c\<lparr>tasks := addEdge taskName taskName (tasks c)\<rparr>"
  have a: "addDependencies taskName (Some [taskName]) c = (Inr (), ?c')"
    using assms by (simp add: addDependencies_def)
  have d1: "taskName \<in> set (dependenciesOf (tasks ?c') taskName)"
    using assms by (simp add: dependenciesOf_addEdge set_setAdd)
  have d2: "taskName \<in> set (dependentsOf (tasks ?c') taskName)"
    using assms by (simp add: dependentsOf_addEdge set_setAdd)
  then have "(taskName, taskName) \<in> (dependentEdges (tasks ?c'))\<^sup>+"
    by (intro r_into_trancl) (simp add: dependentEdges_def)
  then have "\<not> acyclic (dependentEdges (tasks ?c'))" by (auto simp: acyclic_def)
  from getOrderedTasks_cyclic [OF this]
  have "\<exists>chain. getOrderedTasks ?c' = Some (Inl (CyclicDependency chain), ?c')" by blast
  with a d1 d2 show ?thesis by blast
qed

theorem self_dependency_accepted_then_rejected_witness:
  "has (tasks twoTasks) ''A''
   \<and> (\<exists>c'. addDependencies ''A'' (Some [''A'']) twoTasks = (Inr (), c')
            \<and> ''A'' \<in> set (dependenciesOf (tasks c') ''A'')
            \<and> ''A'' \<in> set (dependentsOf (tasks c') ''A'')
            \<and> (\<exists>chain. getOrderedTasks c' = Some (Inl (CyclicDependency chain), c')))"
proof -
  have h: "has (tasks twoTasks) ''A''" by code_simp
  from self_dependency_accepted_then_rejected [OF h] h show ?thesis by simp
qed

section \<open>Critical paths: properties\<close>

text \<open>
  The collection's graph is what is left when the memoized lengths are forgotten: the
  names in their order, and every field of every task but \<open>criticalPathLength\<close>.
\<close>

definition eraseLengths :: "registry \<Rightarrow> registry" where
  "eraseLengths ts = map (\<lambda>(k, t). (k, t\<lparr>criticalPathLength := None\<rparr>)) ts"

text \<open>
  The memoized lengths are consistent when each length that is set is the one its
  equation gives: every dependent has its length (\<open>ns\<close>, in the order of the set), and the
  length is 0 without dependents and one more than the largest of \<open>ns\<close> otherwise.
\<close>

definition consistent :: "registry \<Rightarrow> bool" where
  "consistent ts \<longleftrightarrow>
     (\<forall>k n. lengthOf ts k = Some n \<longrightarrow>
        (\<exists>ns. map (lengthOf ts) (dependentsOf ts k) = map Some ns
              \<and> n = (if ns = [] then 0 else Max (set ns) + 1)))"

text \<open>
  What a run of the critical-path pass from the tasks \<open>R\<close> does to the map: the graph is
  the same, a length that was set stays, a length changes only at a task reachable from
  \<open>R\<close>, and consistent lengths stay consistent.
\<close>

definition calcPost :: "registry \<Rightarrow> string set \<Rightarrow> registry \<Rightarrow> bool" where
  "calcPost ts R ts' \<longleftrightarrow>
     eraseLengths ts' = eraseLengths ts
     \<and> (\<forall>u m. lengthOf ts u = Some m \<longrightarrow> lengthOf ts' u = Some m)
     \<and> (\<forall>u. lengthOf ts' u \<noteq> lengthOf ts u \<longrightarrow> (\<exists>r \<in> R. (r, u) \<in> (dependentEdges ts)\<^sup>*))
     \<and> (consistent ts \<longrightarrow> consistent ts')"

lemma map_of_eraseLengths:
  "map_of (eraseLengths ts) k = map_option (\<lambda>t. t\<lparr>criticalPathLength := None\<rparr>) (map_of ts k)"
  by (induction ts) (auto simp: eraseLengths_def)

lemma keys_eraseLengths: "map fst (eraseLengths ts) = map fst ts"
  by (induction ts) (auto simp: eraseLengths_def)

lemma dependentsOf_eraseLengths: "dependentsOf (eraseLengths ts) k = dependentsOf ts k"
  by (cases "map_of ts k") (simp_all add: dependentsOf_def map_of_eraseLengths)

lemma dependenciesOf_eraseLengths: "dependenciesOf (eraseLengths ts) k = dependenciesOf ts k"
  by (cases "map_of ts k") (simp_all add: dependenciesOf_def map_of_eraseLengths)

lemma has_eraseLengths: "has (eraseLengths ts) k = has ts k"
  by (simp add: has_def map_of_eraseLengths)

lemma same_dependentsOf:
  "eraseLengths ts' = eraseLengths ts \<Longrightarrow> dependentsOf ts' k = dependentsOf ts k"
  by (metis dependentsOf_eraseLengths)


lemma same_has: "eraseLengths ts' = eraseLengths ts \<Longrightarrow> has ts' k = has ts k"
  by (metis has_eraseLengths)

lemma same_keys: "eraseLengths ts' = eraseLengths ts \<Longrightarrow> map fst ts' = map fst ts"
  by (metis keys_eraseLengths)

lemma same_edges:
  "eraseLengths ts' = eraseLengths ts \<Longrightarrow> dependentEdges ts' = dependentEdges ts"
  using same_dependentsOf [of ts' ts] by (simp add: dependentEdges_def)

lemma eraseLengths_setLength: "eraseLengths (setLength k n ts) = eraseLengths ts"
  by (induction ts) (auto simp: eraseLengths_def setLength_def updateTask_def)

lemma lengthOf_setLength:
  "lengthOf (setLength k n ts) a = (if a = k \<and> has ts k then Some n else lengthOf ts a)"
  by (cases "map_of ts a") (auto simp: lengthOf_def setLength_def map_of_updateTask has_def)

lemma consistent_setLength:
  assumes c: "consistent ts" and none: "lengthOf ts t = None"
    and new: "map (lengthOf ts) (dependentsOf ts t) = map Some ns"
             "n = (if ns = [] then 0 else Max (set ns) + 1)"
  shows "consistent (setLength t n ts)"
  unfolding consistent_def
proof (intro allI impI)
  fix k m assume m: "lengthOf (setLength t n ts) k = Some m"
  have deps: "dependentsOf (setLength t n ts) k = dependentsOf ts k"
    by (rule same_dependentsOf) (rule eraseLengths_setLength)
  have keep: "map (lengthOf (setLength t n ts)) ds = map Some ms"
    if "map (lengthOf ts) ds = map Some ms" for ds ms
  proof -
    have same: "lengthOf (setLength t n ts) d = lengthOf ts d" if "d \<in> set ds" for d
    proof -
      from that have "lengthOf ts d \<in> set (map (lengthOf ts) ds)" by simp
      with \<open>map (lengthOf ts) ds = map Some ms\<close> have "lengthOf ts d \<noteq> None" by auto
      with none have "d \<noteq> t" by auto
      then show ?thesis by (simp add: lengthOf_setLength)
    qed
    have "map (lengthOf (setLength t n ts)) ds = map (lengthOf ts) ds"
      by (rule map_cong [OF refl]) (rule same)
    with that show ?thesis by simp
  qed
  show "\<exists>ns. map (lengthOf (setLength t n ts)) (dependentsOf (setLength t n ts) k) = map Some ns
              \<and> m = (if ns = [] then 0 else Max (set ns) + 1)"
  proof (cases "k = t \<and> has ts t")
    case True
    with m have "m = n" by (simp add: lengthOf_setLength)
    with True new keep [OF new(1)] deps show ?thesis by auto
  next
    case False
    with m have "lengthOf ts k = Some m" by (simp add: lengthOf_setLength)
    with c obtain ms where "map (lengthOf ts) (dependentsOf ts k) = map Some ms"
      "m = (if ms = [] then 0 else Max (set ms) + 1)" unfolding consistent_def by blast
    with keep deps show ?thesis by auto
  qed
qed

lemma calcPost_refl: "calcPost ts R ts"
  by (simp add: calcPost_def)

lemma calcPost_trans:
  assumes "calcPost ts R1 ts1" and "calcPost ts1 R2 ts2"
  shows "calcPost ts (R1 \<union> R2) ts2"
proof -
  have e: "dependentEdges ts1 = dependentEdges ts"
    by (rule same_edges) (use assms(1) in \<open>simp add: calcPost_def\<close>)
  show ?thesis
    unfolding calcPost_def
  proof (intro conjI allI impI)
    show "eraseLengths ts2 = eraseLengths ts" using assms by (simp add: calcPost_def)
  next
    fix u m assume "lengthOf ts u = Some m"
    with assms show "lengthOf ts2 u = Some m" by (simp add: calcPost_def)
  next
    fix u assume ne: "lengthOf ts2 u \<noteq> lengthOf ts u"
    show "\<exists>r \<in> R1 \<union> R2. (r, u) \<in> (dependentEdges ts)\<^sup>*"
    proof (cases "lengthOf ts1 u = lengthOf ts u")
      case True
      with ne have "lengthOf ts2 u \<noteq> lengthOf ts1 u" by simp
      with assms(2) e obtain r where "r \<in> R2" "(r, u) \<in> (dependentEdges ts)\<^sup>*"
        unfolding calcPost_def by auto
      then show ?thesis by blast
    next
      case False
      with assms(1) obtain r where "r \<in> R1" "(r, u) \<in> (dependentEdges ts)\<^sup>*"
        unfolding calcPost_def by auto
      then show ?thesis by blast
    qed
  next
    assume "consistent ts"
    with assms show "consistent ts2" by (simp add: calcPost_def)
  qed
qed

lemma calcPost_same: "calcPost ts R ts' \<Longrightarrow> eraseLengths ts' = eraseLengths ts"
  by (simp add: calcPost_def)

lemma calcPost_keeps: "calcPost ts R ts' \<Longrightarrow> lengthOf ts u = Some m \<Longrightarrow> lengthOf ts' u = Some m"
  by (simp add: calcPost_def)

lemma forEachM_calculate:
  assumes step: "\<And>d ts. d \<in> set ds \<Longrightarrow> eraseLengths ts = G \<Longrightarrow>
            \<exists>n ts'. calculateCriticalPaths d ts = Some (n, ts') \<and> lengthOf ts' d = Some n
                   \<and> calcPost ts {d} ts'"
    and "eraseLengths ts = G"
  shows "\<exists>ns ts'. forEachM calculateCriticalPaths ds ts = Some (ns, ts')
           \<and> map (lengthOf ts') ds = map Some ns \<and> calcPost ts (set ds) ts'"
  using assms
proof (induction ds arbitrary: ts)
  case Nil
  then show ?case by (simp add: calcPost_refl)
next
  case (Cons d ds)
  from Cons.prems(1) [of d ts] Cons.prems(2) obtain n ts1 where
    1: "calculateCriticalPaths d ts = Some (n, ts1)" "lengthOf ts1 d = Some n"
       "calcPost ts {d} ts1" by auto
  have g1: "eraseLengths ts1 = G" using 1(3) Cons.prems(2) by (simp add: calcPost_same)
  from Cons.IH [OF _ g1] Cons.prems(1) obtain ns ts2 where
    2: "forEachM calculateCriticalPaths ds ts1 = Some (ns, ts2)"
       "map (lengthOf ts2) ds = map Some ns" "calcPost ts1 (set ds) ts2" by auto
  have "forEachM calculateCriticalPaths (d # ds) ts = Some (n # ns, ts2)"
    using 1(1) 2(1) by simp
  moreover have "map (lengthOf ts2) (d # ds) = map Some (n # ns)"
    using 2(2) calcPost_keeps [OF 2(3) 1(2)] by simp
  moreover have "calcPost ts (set (d # ds)) ts2"
    using calcPost_trans [OF 1(3) 2(3)] by simp
  ultimately show ?case by blast
qed

lemma finite_dependentEdges: "finite (dependentEdges ts)"
proof -
  have "dependentEdges ts \<subseteq> fst ` set ts \<times> (\<Union>p \<in> set ts. set (dependents (snd p)))"
  proof
    fix e assume e: "e \<in> dependentEdges ts"
    obtain a b where ab: "e = (a, b)" by (cases e)
    with e have b: "b \<in> set (dependentsOf ts a)" by (simp add: dependentEdges_def)
    then obtain t where t: "map_of ts a = Some t" by (cases "map_of ts a") (simp_all add: dependentsOf_def)
    then have "(a, t) \<in> set ts" by (rule map_of_SomeD)
    moreover from b t have "b \<in> set (dependents t)" by (simp add: dependentsOf_def)
    ultimately show "e \<in> fst ` set ts \<times> (\<Union>p \<in> set ts. set (dependents (snd p)))"
      using ab by force
  qed
  then show ?thesis by (rule finite_subset) simp
qed

lemma calculate_total:
  assumes acyc: "acyclic (dependentEdges ts0)"
    and closed: "\<And>k d. d \<in> set (dependentsOf ts0 k) \<Longrightarrow> has ts0 d"
  shows "has ts0 t \<Longrightarrow> eraseLengths ts = eraseLengths ts0 \<Longrightarrow>
         \<exists>n ts'. calculateCriticalPaths t ts = Some (n, ts') \<and> lengthOf ts' t = Some n
                \<and> calcPost ts {t} ts'"
proof -
  have wf: "wf ((dependentEdges ts0)\<inverse>)"
    using finite_dependentEdges acyc by (rule finite_acyclic_wf_converse)
  show "has ts0 t \<Longrightarrow> eraseLengths ts = eraseLengths ts0 \<Longrightarrow>
         \<exists>n ts'. calculateCriticalPaths t ts = Some (n, ts') \<and> lengthOf ts' t = Some n
                \<and> calcPost ts {t} ts'"
  proof (induction t arbitrary: ts rule: wf_induct_rule [OF wf])
    case (1 t)
    have edges: "dependentEdges ts = dependentEdges ts0" using "1.prems"(2) by (rule same_edges)
    have deps: "dependentsOf ts k = dependentsOf ts0 k" for k
      using "1.prems"(2) by (rule same_dependentsOf)
    have "has ts t" using "1.prems" same_has by blast
    then obtain task where task: "map_of ts t = Some task" by (auto simp: has_def)
    show ?case
    proof (cases "criticalPathLength task")
      case (Some n)
      then have "calculateCriticalPaths t ts = Some (n, ts)"
        using task by (subst calculateCriticalPaths.simps) simp
      moreover have "lengthOf ts t = Some n" using task Some by (simp add: lengthOf_def)
      ultimately show ?thesis using calcPost_refl by blast
    next
      case None
      then have none: "lengthOf ts t = None" using task by (simp add: lengthOf_def)
      have ds: "dependentsOf ts t = dependents task" using task by (simp add: dependentsOf_def)
      have step: "\<exists>n ts'. calculateCriticalPaths d ts1 = Some (n, ts') \<and> lengthOf ts' d = Some n
                   \<and> calcPost ts1 {d} ts'"
        if "d \<in> set (dependents task)" "eraseLengths ts1 = eraseLengths ts0" for d ts1
      proof -
        from that(1) have "d \<in> set (dependentsOf ts0 t)" using ds deps by simp
        then have "(d, t) \<in> (dependentEdges ts0)\<inverse>" and "has ts0 d"
          using closed by (simp_all add: dependentEdges_def)
        then show ?thesis using that(2) by (rule "1.IH")
      qed
      from forEachM_calculate [of "dependents task" "eraseLengths ts0" ts, OF step "1.prems"(2)]
      obtain ns ts1 where
        f: "forEachM calculateCriticalPaths (dependents task) ts = Some (ns, ts1)"
        and l: "map (lengthOf ts1) (dependents task) = map Some ns"
        and p: "calcPost ts (set (dependents task)) ts1" by blast
      have same1: "eraseLengths ts1 = eraseLengths ts" using p by (rule calcPost_same)
      have deps1: "dependentsOf ts1 t = dependents task"
        using same_dependentsOf [OF same1] ds by simp
      have has1: "has ts1 t" using same_has [OF same1] \<open>has ts t\<close> by simp
      have none1: "lengthOf ts1 t = None"
      proof (rule ccontr)
        assume "lengthOf ts1 t \<noteq> None"
        with none p obtain r where r: "r \<in> set (dependents task)"
          and rt: "(r, t) \<in> (dependentEdges ts)\<^sup>*" unfolding calcPost_def by force
        from r ds have "(t, r) \<in> dependentEdges ts" by (simp add: dependentEdges_def)
        then have "(t, t) \<in> (dependentEdges ts)\<^sup>+" using rt by (rule rtrancl_into_trancl2)
        with acyc edges show False by (simp add: acyclic_def)
      qed
      define n where "n = (if ns = [] then 0 else Max (set ns) + 1)"
      let ?ts' = "setLength t n ts1"
      have empty: "ns = [] \<longleftrightarrow> dependents task = []" using l by (metis map_is_Nil_conv)
      have run: "calculateCriticalPaths t ts = Some (n, ?ts')"
      proof (cases "dependents task = []")
        case True
        with f have "ts1 = ts" by simp
        with True task None empty show ?thesis
          by (subst calculateCriticalPaths.simps) (simp add: n_def)
      next
        case False
        with task None f empty show ?thesis
          by (subst calculateCriticalPaths.simps) (simp add: n_def)
      qed
      have len: "lengthOf ?ts' t = Some n" using has1 by (simp add: lengthOf_setLength)
      have post: "calcPost ts {t} ?ts'"
        unfolding calcPost_def
      proof (intro conjI allI impI)
        show "eraseLengths ?ts' = eraseLengths ts" using same1 by (simp add: eraseLengths_setLength)
      next
        fix u m assume u: "lengthOf ts u = Some m"
        with none have "u \<noteq> t" by auto
        with calcPost_keeps [OF p u] show "lengthOf ?ts' u = Some m" by (simp add: lengthOf_setLength)
      next
        fix u assume ne: "lengthOf ?ts' u \<noteq> lengthOf ts u"
        show "\<exists>r \<in> {t}. (r, u) \<in> (dependentEdges ts)\<^sup>*"
        proof (cases "u = t")
          case True
          then show ?thesis by simp
        next
          case False
          with ne have "lengthOf ts1 u \<noteq> lengthOf ts u" by (simp add: lengthOf_setLength)
          with p obtain r where r: "r \<in> set (dependents task)"
            and ru: "(r, u) \<in> (dependentEdges ts)\<^sup>*" unfolding calcPost_def by blast
          from r ds have "(t, r) \<in> dependentEdges ts" by (simp add: dependentEdges_def)
          then have "(t, u) \<in> (dependentEdges ts)\<^sup>*" using ru by (rule converse_rtrancl_into_rtrancl)
          then show ?thesis by simp
        qed
      next
        assume "consistent ts"
        with p have "consistent ts1" by (simp add: calcPost_def)
        then show "consistent ?ts'"
          using none1 by (rule consistent_setLength) (simp_all add: deps1 l n_def)
      qed
      from run len post show ?thesis by blast
    qed
  qed
qed

section \<open>Invariants of the collection\<close>

text \<open>
  What every collection built through the class satisfies: names are registered once, a
  task is stored under its own name, and the sets refer to registered tasks only.
\<close>

definition wellFormed :: "registry \<Rightarrow> bool" where
  "wellFormed ts \<longleftrightarrow>
     distinct (map fst ts) \<and> map (\<lambda>p. name (snd p)) ts = map fst ts
     \<and> (\<forall>k. \<forall>d \<in> set (dependentsOf ts k). has ts d)
     \<and> (\<forall>k. \<forall>d \<in> set (dependenciesOf ts k). has ts d)"

text \<open>The two sets are inverse to each other on the registered tasks.\<close>

definition mutualInverse :: "registry \<Rightarrow> bool" where
  "mutualInverse ts \<longleftrightarrow>
     (\<forall>a b. has ts a \<and> has ts b \<longrightarrow>
        (b \<in> set (dependenciesOf ts a) \<longleftrightarrow> a \<in> set (dependentsOf ts b)))"

lemma names_eraseLengths: "map (\<lambda>p. name (snd p)) (eraseLengths ts) = map (\<lambda>p. name (snd p)) ts"
  by (induction ts) (auto simp: eraseLengths_def)



lemma wellFormed_eraseLengths: "wellFormed (eraseLengths ts) = wellFormed ts"
  by (simp add: wellFormed_def keys_eraseLengths names_eraseLengths dependentsOf_eraseLengths
      dependenciesOf_eraseLengths has_eraseLengths)

lemma mutualInverse_eraseLengths: "mutualInverse (eraseLengths ts) = mutualInverse ts"
  by (simp add: mutualInverse_def dependentsOf_eraseLengths dependenciesOf_eraseLengths
      has_eraseLengths)

lemma same_wellFormed: "eraseLengths ts' = eraseLengths ts \<Longrightarrow> wellFormed ts' = wellFormed ts"
  by (metis wellFormed_eraseLengths)

lemma same_mutualInverse:
  "eraseLengths ts' = eraseLengths ts \<Longrightarrow> mutualInverse ts' = mutualInverse ts"
  by (metis mutualInverse_eraseLengths)

lemma getOrderedTasks_total:
  assumes wf: "wellFormed (tasks c)" and acyc: "acyclic (dependentEdges (tasks c))"
  shows "\<exists>lengths ts'.
           forEachM calculateCriticalPaths (map fst (tasks c)) (tasks c) = Some (lengths, ts')
           \<and> getOrderedTasks c = Some (Inr (sortBy negatedLength (map snd ts')), c\<lparr>tasks := ts'\<rparr>)
           \<and> map (lengthOf ts') (map fst (tasks c)) = map Some lengths
           \<and> calcPost (tasks c) (set (map fst (tasks c))) ts'"
proof -
  obtain checked where ok: "checkForCyclicDependencies (tasks c) (map fst (tasks c)) [] [] = Inr checked"
    using acyc check_ok_iff_acyclic by blast
  have closed: "\<And>k d. d \<in> set (dependentsOf (tasks c) k) \<Longrightarrow> has (tasks c) d"
    using wf by (simp add: wellFormed_def)
  have step: "\<exists>n ts'. calculateCriticalPaths d ts = Some (n, ts') \<and> lengthOf ts' d = Some n
               \<and> calcPost ts {d} ts'"
    if "d \<in> set (map fst (tasks c))" "eraseLengths ts = eraseLengths (tasks c)" for d ts
  proof -
    from that(1) have "has (tasks c) d" by (simp add: has_iff_key)
    with acyc closed show ?thesis using that(2) by (rule calculate_total)
  qed
  from forEachM_calculate [of "map fst (tasks c)" "eraseLengths (tasks c)" "tasks c", OF step refl]
  obtain lengths ts' where
    f: "forEachM calculateCriticalPaths (map fst (tasks c)) (tasks c) = Some (lengths, ts')"
    and l: "map (lengthOf ts') (map fst (tasks c)) = map Some lengths"
    and p: "calcPost (tasks c) (set (map fst (tasks c))) ts'" by blast
  have "getOrderedTasks c = Some (Inr (sortBy negatedLength (map snd ts')), c\<lparr>tasks := ts'\<rparr>)"
    using ok f by (simp add: getOrderedTasks_def)
  with f l p show ?thesis by blast
qed

text \<open>Whatever \<open>getOrderedTasks\<close> returns or throws, it leaves the graph as it was.\<close>

lemma getOrderedTasks_same_graph:
  assumes "wellFormed (tasks c)" and "getOrderedTasks c = Some (r, c')"
  shows "eraseLengths (tasks c') = eraseLengths (tasks c)
         \<and> quietMode c' = quietMode c \<and> terminal c' = terminal c"
proof (cases "checkForCyclicDependencies (tasks c) (map fst (tasks c)) [] []")
  case (Inl e)
  with assms(2) show ?thesis by (simp add: getOrderedTasks_def)
next
  case (Inr checked)
  then have "acyclic (dependentEdges (tasks c))" by (rule check_ok_acyclic)
  from getOrderedTasks_total [OF assms(1) this] assms(2) show ?thesis
    by (auto simp: calcPost_def)
qed

lemma getOrderedTasks_returns:
  assumes "wellFormed (tasks c)"
  shows "\<exists>r c'. getOrderedTasks c = Some (r, c')"
proof (cases "checkForCyclicDependencies (tasks c) (map fst (tasks c)) [] []")
  case (Inl e)
  then show ?thesis by (simp add: getOrderedTasks_def)
next
  case (Inr checked)
  then have "acyclic (dependentEdges (tasks c))" by (rule check_ok_acyclic)
  from getOrderedTasks_total [OF assms(1) this] show ?thesis by blast
qed

definition invariant :: "TaskCollection \<Rightarrow> bool" where
  "invariant c \<longleftrightarrow> wellFormed (tasks c) \<and> mutualInverse (tasks c)"

lemma invariant_new: "invariant (newTaskCollection quiet)"
  by (simp add: invariant_def wellFormed_def mutualInverse_def newTaskCollection_def
      dependentsOf_def dependenciesOf_def has_def)

lemma map_of_snoc:
  "map_of (ts @ [(n, t)]) k = (case map_of ts k of Some v \<Rightarrow> Some v | None \<Rightarrow> if k = n then Some t else None)"
  by (induction ts) auto

lemma has_snoc: "has (ts @ [(n, t)]) k \<longleftrightarrow> has ts k \<or> k = n"
  by (cases "map_of ts k") (simp_all add: has_def map_of_snoc del: map_of_append)

lemma dependentsOf_snoc:
  "\<not> has ts n \<Longrightarrow> dependentsOf (ts @ [(n, t)]) k = (if k = n then dependents t else dependentsOf ts k)"
  by (cases "map_of ts k") (auto simp: dependentsOf_def map_of_snoc has_def simp del: map_of_append)

lemma dependenciesOf_snoc:
  "\<not> has ts n \<Longrightarrow> dependenciesOf (ts @ [(n, t)]) k = (if k = n then dependencies t else dependenciesOf ts k)"
  by (cases "map_of ts k") (auto simp: dependenciesOf_def map_of_snoc has_def simp del: map_of_append)

lemma wellFormed_register:
  assumes wf: "wellFormed ts" and fresh: "\<not> has ts n"
  shows "wellFormed (ts @ [(n, \<lparr>name = n, dependencies = [], dependents = [], status = s,
                              criticalPathLength = l\<rparr>)])"
    (is "wellFormed (ts @ [(n, ?t)])")
proof -
  have 1: "distinct (map fst (ts @ [(n, ?t)]))"
    using wf fresh by (simp add: wellFormed_def has_iff_key)
  have 2: "map (\<lambda>p. name (snd p)) (ts @ [(n, ?t)]) = map fst (ts @ [(n, ?t)])"
    using wf by (simp add: wellFormed_def)
  have 3: "has (ts @ [(n, ?t)]) d" if "d \<in> set (dependentsOf (ts @ [(n, ?t)]) k)" for k d
  proof -
    from that fresh have "k \<noteq> n" and "d \<in> set (dependentsOf ts k)"
      by (auto simp: dependentsOf_snoc split: if_splits)
    with wf have "has ts d" by (simp add: wellFormed_def)
    then show ?thesis by (simp add: has_snoc)
  qed
  have 4: "has (ts @ [(n, ?t)]) d" if "d \<in> set (dependenciesOf (ts @ [(n, ?t)]) k)" for k d
  proof -
    from that fresh have "k \<noteq> n" and "d \<in> set (dependenciesOf ts k)"
      by (auto simp: dependenciesOf_snoc split: if_splits)
    with wf have "has ts d" by (simp add: wellFormed_def)
    then show ?thesis by (simp add: has_snoc)
  qed
  show ?thesis unfolding wellFormed_def using 1 2 3 4 by blast
qed

lemma mutualInverse_register:
  assumes wf: "wellFormed ts" and mi: "mutualInverse ts" and fresh: "\<not> has ts n"
  shows "mutualInverse (ts @ [(n, \<lparr>name = n, dependencies = [], dependents = [], status = s,
                              criticalPathLength = l\<rparr>)])"
    (is "mutualInverse (ts @ [(n, ?t)])")
  unfolding mutualInverse_def
proof (intro allI impI)
  fix a b assume "has (ts @ [(n, ?t)]) a \<and> has (ts @ [(n, ?t)]) b"
  then have ab: "has ts a \<or> a = n" "has ts b \<or> b = n" by (simp_all add: has_snoc)
  have no1: "n \<notin> set (dependentsOf ts k)" for k using wf fresh by (auto simp: wellFormed_def)
  have no2: "n \<notin> set (dependenciesOf ts k)" for k using wf fresh by (auto simp: wellFormed_def)
  show "(b \<in> set (dependenciesOf (ts @ [(n, ?t)]) a)) = (a \<in> set (dependentsOf (ts @ [(n, ?t)]) b))"
  proof (cases "a = n \<or> b = n")
    case True
    then show ?thesis using fresh no1 no2 by (auto simp: dependentsOf_snoc dependenciesOf_snoc)
  next
    case False
    with ab have "has ts a" "has ts b" by auto
    with mi have "(b \<in> set (dependenciesOf ts a)) = (a \<in> set (dependentsOf ts b))"
      by (simp add: mutualInverse_def)
    with False fresh show ?thesis by (simp add: dependentsOf_snoc dependenciesOf_snoc)
  qed
qed

lemma invariant_addTask:
  assumes "invariant c"
  shows "invariant (snd (addTask taskDefinition c))"
proof (cases "has (tasks c) (name taskDefinition)")
  case True
  with assms show ?thesis by (simp add: addTask_def)
next
  case False
  with assms wellFormed_register [of "tasks c" "name taskDefinition" Ready None]
    mutualInverse_register [of "tasks c" "name taskDefinition" Ready None]
  show ?thesis by (simp add: addTask_def invariant_def Let_def)
qed

lemma names_updateTask:
  "(\<And>t. name (f t) = name t) \<Longrightarrow>
   map (\<lambda>p. name (snd p)) (updateTask k f ts) = map (\<lambda>p. name (snd p)) ts"
  by (induction ts) (auto simp: updateTask_def)

lemma names_addEdge: "map (\<lambda>p. name (snd p)) (addEdge n d ts) = map (\<lambda>p. name (snd p)) ts"
  by (simp add: addEdge_def names_updateTask)

lemma wellFormed_addEdge:
  assumes wf: "wellFormed ts" and n: "has ts n" and d: "has ts d"
  shows "wellFormed (addEdge n d ts)"
proof -
  have 1: "distinct (map fst (addEdge n d ts))" using wf by (simp add: wellFormed_def keys_addEdge)
  have 2: "map (\<lambda>p. name (snd p)) (addEdge n d ts) = map fst (addEdge n d ts)"
    using wf by (simp add: wellFormed_def keys_addEdge names_addEdge)
  have 3: "has (addEdge n d ts) x" if "x \<in> set (dependentsOf (addEdge n d ts) k)" for k x
  proof -
    from that have "x = n \<or> x \<in> set (dependentsOf ts k)"
      by (auto simp: dependentsOf_addEdge set_setAdd split: if_splits)
    with wf n show ?thesis by (auto simp: wellFormed_def has_addEdge)
  qed
  have 4: "has (addEdge n d ts) x" if "x \<in> set (dependenciesOf (addEdge n d ts) k)" for k x
  proof -
    from that have "x = d \<or> x \<in> set (dependenciesOf ts k)"
      by (auto simp: dependenciesOf_addEdge set_setAdd split: if_splits)
    with wf d show ?thesis by (auto simp: wellFormed_def has_addEdge)
  qed
  show ?thesis unfolding wellFormed_def using 1 2 3 4 by blast
qed

lemma mutualInverse_addEdge:
  assumes mi: "mutualInverse ts" and n: "has ts n" and d: "has ts d"
  shows "mutualInverse (addEdge n d ts)"
  unfolding mutualInverse_def
proof (intro allI impI)
  fix a b assume "has (addEdge n d ts) a \<and> has (addEdge n d ts) b"
  then have "has ts a" "has ts b" by (simp_all add: has_addEdge)
  with mi have old: "(b \<in> set (dependenciesOf ts a)) = (a \<in> set (dependentsOf ts b))"
    by (simp add: mutualInverse_def)
  have l: "(b \<in> set (dependenciesOf (addEdge n d ts) a))
             = ((a = n \<and> b = d) \<or> b \<in> set (dependenciesOf ts a))"
    using n by (auto simp: dependenciesOf_addEdge set_setAdd)
  have r: "(a \<in> set (dependentsOf (addEdge n d ts) b))
             = ((a = n \<and> b = d) \<or> a \<in> set (dependentsOf ts b))"
    using d by (auto simp: dependentsOf_addEdge set_setAdd)
  show "(b \<in> set (dependenciesOf (addEdge n d ts) a)) = (a \<in> set (dependentsOf (addEdge n d ts) b))"
    unfolding l r using old by simp
qed

lemma invariant_loop:
  assumes "wellFormed ts \<and> mutualInverse ts" and "has ts n"
  shows "wellFormed (snd (addDependenciesLoop n ds ts))
         \<and> mutualInverse (snd (addDependenciesLoop n ds ts))"
  using assms
proof (induction ds arbitrary: ts)
  case Nil
  then show ?case by simp
next
  case (Cons d ds)
  show ?case
  proof (cases "has ts d")
    case True
    have "wellFormed (addEdge n d ts) \<and> mutualInverse (addEdge n d ts)"
      using Cons.prems True by (simp add: wellFormed_addEdge mutualInverse_addEdge)
    moreover have "has (addEdge n d ts) n" using Cons.prems by (simp add: has_addEdge)
    ultimately show ?thesis using Cons.IH True by simp
  next
    case False
    with Cons.prems show ?thesis by simp
  qed
qed

lemma invariant_addDependencies:
  assumes "invariant c"
  shows "invariant (snd (addDependencies taskName taskDependencies c))"
proof (cases "has (tasks c) taskName")
  case False
  with assms show ?thesis by (simp add: addDependencies_def)
next
  case True
  show ?thesis
  proof (cases taskDependencies)
    case None
    with assms show ?thesis by (simp add: addDependencies_def)
  next
    case (Some deps)
    from invariant_loop [of "tasks c" taskName deps] assms True Some show ?thesis
      by (simp add: addDependencies_def invariant_def split_def)
  qed
qed

lemma invariant_getOrderedTasks:
  assumes "invariant c" and "getOrderedTasks c = Some (r, c')"
  shows "invariant c'"
proof -
  from assms have "eraseLengths (tasks c') = eraseLengths (tasks c)"
    using getOrderedTasks_same_graph by (simp add: invariant_def)
  from same_wellFormed [OF this] same_mutualInverse [OF this] assms(1)
  show ?thesis by (simp add: invariant_def)
qed

lemma invariant_perform:
  assumes "invariant c" and "perform operation c = Some c'"
  shows "invariant c'"
proof (cases operation)
  case (AddTask taskDefinition)
  with assms invariant_addTask [of c taskDefinition] show ?thesis by auto
next
  case (AddDependencies taskName taskDependencies)
  with assms invariant_addDependencies [of c taskName taskDependencies] show ?thesis by auto
next
  case (HasTask taskName)
  with assms show ?thesis by simp
next
  case GetOrderedTasks
  with assms(2) obtain r where "getOrderedTasks c = Some (r, c')" by auto
  with assms(1) show ?thesis by (rule invariant_getOrderedTasks)
qed

lemma perform_returns:
  assumes "invariant c"
  shows "\<exists>c'. perform operation c = Some c'"
proof (cases operation)
  case GetOrderedTasks
  from assms have "wellFormed (tasks c)" by (simp add: invariant_def)
  from getOrderedTasks_returns [OF this] GetOrderedTasks show ?thesis by auto
qed simp_all

lemma performAll_invariant:
  "invariant c \<Longrightarrow> \<exists>c'. performAll operations c = Some c' \<and> invariant c'"
proof (induction operations arbitrary: c)
  case Nil
  then show ?case by simp
next
  case (Cons operation rest)
  from perform_returns [OF Cons.prems] obtain c1 where c1: "perform operation c = Some c1" by blast
  with Cons.prems have "invariant c1" by (rule invariant_perform)
  from Cons.IH [OF this] c1 show ?case by simp
qed

lemma reachable_invariant:
  "performAll operations (newTaskCollection quiet) = Some c \<Longrightarrow> invariant c"
  using performAll_invariant [OF invariant_new, of operations quiet] by auto

section \<open>A dependency that is not registered\<close>

text \<open>
  C5, as the specification states it, fails: the loop links each name before it looks at
  the next one, so the names in front of the first unregistered one are linked when the
  call throws. Here B is linked to A before Z is found missing.
\<close>

theorem addDependencies_partial_counterexample:
  "has (tasks twoTasks) ''A'' \<and> \<not> has (tasks twoTasks) ''Z''
   \<and> fst (addDependencies ''A'' (Some [''B'', ''Z'']) twoTasks) = Inl (ProjectNotRegistered ''Z'')
   \<and> dependenciesOf (tasks twoTasks) ''A'' = []
   \<and> dependentsOf (tasks twoTasks) ''B'' = []
   \<and> dependenciesOf (tasks (snd (addDependencies ''A'' (Some [''B'', ''Z'']) twoTasks))) ''A'' = [''B'']
   \<and> dependentsOf (tasks (snd (addDependencies ''A'' (Some [''B'', ''Z'']) twoTasks))) ''B'' = [''A'']"
  by code_simp

text \<open>
  C5, amended: when the task name is registered and the list of dependencies is
  \<open>before @ missing # rest\<close> with every name of \<open>before\<close> registered and \<open>missing\<close> not,
  the call fails with the error that names \<open>missing\<close>, and it leaves the collection that
  the successful call with the list \<open>before\<close> leaves: nothing is linked for \<open>missing\<close>
  or for a name after it, and, the two sets being inverse before the call, they are
  inverse after it (no edge is added on one side only).
\<close>

theorem addDependencies_unregistered_dependency:
  assumes "has (tasks c) taskName" and "\<forall>d \<in> set before. has (tasks c) d"
    and "\<not> has (tasks c) missing"
  shows "\<exists>c'. addDependencies taskName (Some before) c = (Inr (), c')
            \<and> addDependencies taskName (Some (before @ missing # rest)) c
                = (Inl (ProjectNotRegistered missing), c')
            \<and> (wellFormed (tasks c) \<and> mutualInverse (tasks c) \<longrightarrow> mutualInverse (tasks c'))"
proof -
  obtain r ts' where l: "addDependenciesLoop taskName before (tasks c) = (r, ts')"
    by (cases "addDependenciesLoop taskName before (tasks c)")
  from loop_success [OF assms(2), of taskName] l have r: "r = Inr ()" by simp
  have "\<not> has ts' missing" using loop_result_has [OF l] assms(3) by simp
  then have calls: "addDependencies taskName (Some before) c = (Inr (), c\<lparr>tasks := ts'\<rparr>)"
    "addDependencies taskName (Some (before @ missing # rest)) c
       = (Inl (ProjectNotRegistered missing), c\<lparr>tasks := ts'\<rparr>)"
    using assms(1) l r by (simp_all add: addDependencies_def loop_append)
  have "mutualInverse ts'" if "wellFormed (tasks c) \<and> mutualInverse (tasks c)"
    using invariant_loop [OF that assms(1), of before] l by simp
  with calls show ?thesis by simp
qed

theorem addDependencies_unregistered_dependency_witness:
  "has (tasks twoTasks) ''A'' \<and> has (tasks twoTasks) ''B'' \<and> \<not> has (tasks twoTasks) ''Z''
   \<and> wellFormed (tasks twoTasks) \<and> mutualInverse (tasks twoTasks)
   \<and> (\<exists>c'. addDependencies ''A'' (Some [''B'']) twoTasks = (Inr (), c')
           \<and> addDependencies ''A'' (Some ([''B''] @ ''Z'' # [''A''])) twoTasks
               = (Inl (ProjectNotRegistered ''Z''), c')
           \<and> mutualInverse (tasks c'))"
proof -
  have a: "has (tasks twoTasks) ''A''" by code_simp
  have b: "has (tasks twoTasks) ''B''" by code_simp
  have z: "\<not> has (tasks twoTasks) ''Z''" by code_simp
  have ds: "\<forall>d \<in> set [''B'']. has (tasks twoTasks) d" using b by simp
  have "performAll [AddTask \<lparr>name = ''A''\<rparr>, AddTask \<lparr>name = ''B''\<rparr>] (newTaskCollection True)
          = Some twoTasks" by code_simp
  then have "invariant twoTasks" by (rule reachable_invariant)
  then have i: "wellFormed (tasks twoTasks) \<and> mutualInverse (tasks twoTasks)"
    by (simp add: invariant_def)
  from addDependencies_unregistered_dependency [OF a ds z, of "[''A'']"] a b z i
  show ?thesis by auto
qed

section \<open>Ordering: properties\<close>

lemma getOrderedTasks_spec:
  assumes wf: "wellFormed (tasks c)" and acyc: "acyclic (dependentEdges (tasks c))"
  shows "\<exists>ts'. getOrderedTasks c = Some (Inr (sortBy negatedLength (map snd ts')), c\<lparr>tasks := ts'\<rparr>)
           \<and> eraseLengths ts' = eraseLengths (tasks c)
           \<and> (\<forall>k. has ts' k \<longrightarrow> lengthOf ts' k \<noteq> None)
           \<and> (\<forall>p \<in> set ts'. criticalPathLength (snd p) \<noteq> None)
           \<and> (consistent (tasks c) \<longrightarrow> consistent ts')"
proof -
  from getOrderedTasks_total [OF wf acyc] obtain lengths ts' where
    g: "getOrderedTasks c = Some (Inr (sortBy negatedLength (map snd ts')), c\<lparr>tasks := ts'\<rparr>)"
    and l: "map (lengthOf ts') (map fst (tasks c)) = map Some lengths"
    and p: "calcPost (tasks c) (set (map fst (tasks c))) ts'" by blast
  have same: "eraseLengths ts' = eraseLengths (tasks c)" using p by (rule calcPost_same)
  have keys: "map fst ts' = map fst (tasks c)" using same by (rule same_keys)
  have defined: "lengthOf ts' k \<noteq> None" if "has ts' k" for k
  proof -
    from that have "k \<in> set (map fst (tasks c))" using keys by (simp add: has_iff_key flip: set_map)
    then have "lengthOf ts' k \<in> set (map (lengthOf ts') (map fst (tasks c)))"
      unfolding set_map by (rule imageI)
    with l show ?thesis by auto
  qed
  have "distinct (map fst ts')" using wf keys by (simp add: wellFormed_def)
  have each: "criticalPathLength (snd p) \<noteq> None" if "p \<in> set ts'" for p
  proof -
    from that have "(fst p, snd p) \<in> set ts'" by simp
    with \<open>distinct (map fst ts')\<close> have m: "map_of ts' (fst p) = Some (snd p)"
      by (rule map_of_is_SomeI)
    then have "has ts' (fst p)" by (simp add: has_def)
    from defined [OF this] m show ?thesis by (simp add: lengthOf_def)
  qed
  from g same defined each p show ?thesis unfolding calcPost_def by blast
qed

lemma consistent_unset:
  assumes "\<And>k. lengthOf ts k = None"
  shows "consistent ts"
  using assms by (simp add: consistent_def)

lemma lengthOf_unset:
  assumes "list_all (\<lambda>p. criticalPathLength (snd p) = None) ts"
  shows "lengthOf ts k = None"
proof (cases "map_of ts k")
  case None
  then show ?thesis by (simp add: lengthOf_def)
next
  case (Some t)
  then have "(k, t) \<in> set ts" by (rule map_of_SomeD)
  with assms have "criticalPathLength t = None" by (auto simp: list_all_iff)
  with Some show ?thesis by (simp add: lengthOf_def)
qed

lemma chain_reached: "performAll chainOperations (newTaskCollection True) = Some chainABC"
  by code_simp

lemma chain_acyclic: "acyclic (dependentEdges (tasks chainABC))"
proof -
  have "checkForCyclicDependencies (tasks chainABC) (map fst (tasks chainABC)) [] []
          = Inr [''A'', ''B'', ''C'']" by code_simp
  then show ?thesis by (rule check_ok_acyclic)
qed

text \<open>
  C1: for every collection that a sequence of calls of the class has built (successful
  calls of \<open>addTask\<close> and \<open>addDependencies\<close> among them) and whose graph is acyclic,
  \<open>getOrderedTasks\<close> returns, without an error, a sequence that is a permutation of the
  map's values; the names in it are the registered names, each once.
\<close>

theorem getOrderedTasks_permutation:
  assumes "performAll operations (newTaskCollection quiet) = Some c"
    and "acyclic (dependentEdges (tasks c))"
  shows "\<exists>out c'. getOrderedTasks c = Some (Inr out, c')
           \<and> mset out = mset (map snd (tasks c'))
           \<and> mset (map name out) = mset (map fst (tasks c))
           \<and> distinct (map name out)"
proof -
  from assms(1) have wf: "wellFormed (tasks c)"
    using reachable_invariant by (simp add: invariant_def)
  from getOrderedTasks_spec [OF wf assms(2)] obtain ts' where
    g: "getOrderedTasks c = Some (Inr (sortBy negatedLength (map snd ts')), c\<lparr>tasks := ts'\<rparr>)"
    and same: "eraseLengths ts' = eraseLengths (tasks c)" by blast
  let ?out = "sortBy negatedLength (map snd ts')"
  have wf': "wellFormed ts'" using same_wellFormed [OF same] wf by simp
  have keys: "map fst ts' = map fst (tasks c)" using same by (rule same_keys)
  have perm: "mset ?out = mset (map snd ts')" by (simp add: sortBy_def)
  have "mset (map name ?out) = image_mset name (mset (map snd ts'))"
    using perm by (metis mset_map)
  also have "\<dots> = mset (map (\<lambda>p. name (snd p)) ts')"
    by (simp add: multiset.map_comp comp_def)
  also have "\<dots> = mset (map fst (tasks c))" using wf' keys by (simp add: wellFormed_def)
  finally have names: "mset (map name ?out) = mset (map fst (tasks c))" .
  have "distinct (map fst (tasks c))" using wf by (simp add: wellFormed_def)
  with mset_eq_imp_distinct_iff [OF names] have "distinct (map name ?out)" by simp
  with g perm names show ?thesis by auto
qed

theorem getOrderedTasks_permutation_witness:
  "performAll chainOperations (newTaskCollection True) = Some chainABC
   \<and> acyclic (dependentEdges (tasks chainABC))
   \<and> (\<exists>out c'. getOrderedTasks chainABC = Some (Inr out, c')
           \<and> mset out = mset (map snd (tasks c'))
           \<and> mset (map name out) = mset (map fst (tasks chainABC))
           \<and> distinct (map name out))"
  using getOrderedTasks_permutation [OF chain_reached chain_acyclic] chain_reached chain_acyclic
  by simp



lemma getOrderedTasks_succeeds_acyclic:
  assumes "getOrderedTasks c = Some (Inr out, c')"
  shows "acyclic (dependentEdges (tasks c))"
proof (cases "checkForCyclicDependencies (tasks c) (map fst (tasks c)) [] []")
  case (Inl e)
  with assms show ?thesis by (simp add: getOrderedTasks_def)
next
  case (Inr checked)
  then show ?thesis by (rule check_ok_acyclic)
qed

text \<open>No length is set: the state of every collection before the first ordering.\<close>

definition unset :: "registry \<Rightarrow> bool" where
  "unset ts = list_all (\<lambda>p. criticalPathLength (snd p) = None) ts"

lemma unset_updateTask:
  "(\<And>t. criticalPathLength (f t) = criticalPathLength t) \<Longrightarrow> unset (updateTask k f ts) = unset ts"
  unfolding unset_def updateTask_alt by (simp add: list_all_iff)

lemma unset_addEdge: "unset (addEdge n d ts) = unset ts"
  by (simp add: addEdge_def unset_updateTask)

lemma unset_loop: "unset ts \<Longrightarrow> unset (snd (addDependenciesLoop n ds ts))"
  by (induction ds arbitrary: ts) (simp_all add: unset_addEdge)

lemma unset_addTask: "unset (tasks c) \<Longrightarrow> unset (tasks (snd (addTask taskDefinition c)))"
  by (simp add: addTask_def unset_def Let_def)

lemma unset_addDependencies:
  "unset (tasks c) \<Longrightarrow> unset (tasks (snd (addDependencies taskName taskDependencies c)))"
  using unset_loop [of "tasks c" taskName]
  by (cases taskDependencies) (simp_all add: addDependencies_def split_def)

lemma unset_performAll:
  "unset (tasks c) \<Longrightarrow> GetOrderedTasks \<notin> set operations \<Longrightarrow>
   performAll operations c = Some c' \<Longrightarrow> unset (tasks c')"
proof (induction operations arbitrary: c)
  case Nil
  then show ?case by simp
next
  case (Cons operation rest)
  from Cons.prems(2) have "operation \<noteq> GetOrderedTasks" by auto
  then obtain c1 where c1: "perform operation c = Some c1" and u: "unset (tasks c1)"
    using Cons.prems(1) by (cases operation) (simp_all add: unset_addTask unset_addDependencies)
  from Cons.prems(2,3) c1 have "GetOrderedTasks \<notin> set rest" "performAll rest c1 = Some c'" by simp_all
  with Cons.IH [OF u] show ?case by simp
qed

lemma consistent_before_ordering:
  assumes "performAll operations (newTaskCollection quiet) = Some c"
    and "GetOrderedTasks \<notin> set operations"
  shows "consistent (tasks c)"
proof -
  have "unset (tasks (newTaskCollection quiet))" by (simp add: unset_def newTaskCollection_def)
  from unset_performAll [OF this assms(2,1)] have "unset (tasks c)" .
  then have "lengthOf (tasks c) k = None" for k unfolding unset_def by (rule lengthOf_unset)
  then show ?thesis by (rule consistent_unset)
qed

subsection \<open>The critical-path lengths\<close>

text \<open>
  C2, as the specification states it, fails: a length is computed once and kept. After
  an ordering of A and B without edges both lengths are 0; B is then declared to depend
  on A, and the next ordering of this acyclic graph succeeds and leaves A, which now has
  the dependent B, with the length 0 instead of 1.
\<close>

theorem stale_length_counterexample:
  "performAll [AddTask \<lparr>name = ''A''\<rparr>, AddTask \<lparr>name = ''B''\<rparr>, GetOrderedTasks,
       AddDependencies ''B'' (Some [''A''])] (newTaskCollection True) = Some staleAB
   \<and> getOrderedTasks staleAB = Some (Inr (map snd (tasks staleAB)), staleAB)
   \<and> dependentsOf (tasks staleAB) ''A'' = [''B'']
   \<and> lengthOf (tasks staleAB) ''A'' = Some 0
   \<and> lengthOf (tasks staleAB) ''B'' = Some 0"
  by code_simp

text \<open>
  C2, amended: on an acyclic graph whose lengths, where already set, are consistent (as
  they are on every collection before its first ordering, \<open>consistent_before_ordering\<close>),
  \<open>getOrderedTasks\<close> succeeds and afterwards every registered task has its length: 0
  when it has no dependents, and otherwise one more than the largest length of its
  dependents, all of which have their lengths.
\<close>

theorem critical_path_lengths:
  assumes "performAll operations (newTaskCollection quiet) = Some c"
    and "acyclic (dependentEdges (tasks c))"
    and "consistent (tasks c)"
  shows "\<exists>out c'. getOrderedTasks c = Some (Inr out, c')
           \<and> (\<forall>k. has (tasks c') k \<longrightarrow>
                 (\<exists>n. lengthOf (tasks c') k = Some n
                    \<and> (dependentsOf (tasks c') k = [] \<longrightarrow> n = 0)
                    \<and> (dependentsOf (tasks c') k \<noteq> [] \<longrightarrow>
                         (\<exists>ns. map (lengthOf (tasks c')) (dependentsOf (tasks c') k) = map Some ns
                               \<and> n = Max (set ns) + 1))))"
proof -
  from assms(1) have wf: "wellFormed (tasks c)"
    using reachable_invariant by (simp add: invariant_def)
  from getOrderedTasks_spec [OF wf assms(2)] assms(3) obtain ts' where
    g: "getOrderedTasks c = Some (Inr (sortBy negatedLength (map snd ts')), c\<lparr>tasks := ts'\<rparr>)"
    and defined: "\<And>k. has ts' k \<Longrightarrow> lengthOf ts' k \<noteq> None"
    and cons: "consistent ts'" by blast
  have "\<exists>n. lengthOf ts' k = Some n
          \<and> (dependentsOf ts' k = [] \<longrightarrow> n = 0)
          \<and> (dependentsOf ts' k \<noteq> [] \<longrightarrow>
               (\<exists>ns. map (lengthOf ts') (dependentsOf ts' k) = map Some ns \<and> n = Max (set ns) + 1))"
    if "has ts' k" for k
  proof -
    from defined [OF that] obtain n where n: "lengthOf ts' k = Some n" by auto
    with cons obtain ns where ns: "map (lengthOf ts') (dependentsOf ts' k) = map Some ns"
      "n = (if ns = [] then 0 else Max (set ns) + 1)" unfolding consistent_def by blast
    from ns(1) have "ns = [] \<longleftrightarrow> dependentsOf ts' k = []" by (metis map_is_Nil_conv)
    with n ns show ?thesis by auto
  qed
  with g show ?thesis by simp
qed

theorem critical_path_lengths_witness:
  "performAll chainOperations (newTaskCollection True) = Some chainABC
   \<and> acyclic (dependentEdges (tasks chainABC))
   \<and> consistent (tasks chainABC)
   \<and> (\<exists>out c'. getOrderedTasks chainABC = Some (Inr out, c')
           \<and> (\<forall>k. has (tasks c') k \<longrightarrow>
                 (\<exists>n. lengthOf (tasks c') k = Some n
                    \<and> (dependentsOf (tasks c') k = [] \<longrightarrow> n = 0)
                    \<and> (dependentsOf (tasks c') k \<noteq> [] \<longrightarrow>
                         (\<exists>ns. map (lengthOf (tasks c')) (dependentsOf (tasks c') k) = map Some ns
                               \<and> n = Max (set ns) + 1)))))"
proof -
  have "list_all (\<lambda>p. criticalPathLength (snd p) = None) (tasks chainABC)" by code_simp
  then have "lengthOf (tasks chainABC) k = None" for k by (rule lengthOf_unset)
  then have c: "consistent (tasks chainABC)" by (rule consistent_unset)
  from critical_path_lengths [OF chain_reached chain_acyclic c] chain_reached chain_acyclic c
  show ?thesis by simp
qed

subsection \<open>The order of the result\<close>

text \<open>
  C4: when \<open>getOrderedTasks\<close> succeeds, every task of the result has its length, the
  result is sorted non-increasing by length, and the sort is stable: the tasks of any one
  length stand in the result in the order of their registration. (The result is a
  function of the collection, so the same input gives the same sequence.)
\<close>

theorem getOrderedTasks_sorted_stable:
  assumes "performAll operations (newTaskCollection quiet) = Some c"
    and "getOrderedTasks c = Some (Inr out, c')"
  shows "(\<forall>t \<in> set out. criticalPathLength t \<noteq> None)
       \<and> sorted_wrt (\<lambda>a b. \<exists>m n. criticalPathLength a = Some m \<and> criticalPathLength b = Some n
                              \<and> n \<le> m) out
       \<and> (\<forall>n. filter (\<lambda>t. criticalPathLength t = Some n) out
               = filter (\<lambda>t. criticalPathLength t = Some n) (map snd (tasks c')))"
proof -
  from assms(1) have wf: "wellFormed (tasks c)"
    using reachable_invariant by (simp add: invariant_def)
  have acyc: "acyclic (dependentEdges (tasks c))"
    using assms(2) by (rule getOrderedTasks_succeeds_acyclic)
  from getOrderedTasks_spec [OF wf acyc] assms(2) obtain ts' where
    out: "out = sortBy negatedLength (map snd ts')" and c': "tasks c' = ts'"
    and each: "\<forall>p \<in> set ts'. criticalPathLength (snd p) \<noteq> None" by auto
  have set_out: "set out = snd ` set ts'" by (simp add: out sortBy_def)
  with each have 1: "\<forall>t \<in> set out. criticalPathLength t \<noteq> None" by auto
  have key: "negatedLength t = - int n \<longleftrightarrow> criticalPathLength t = Some n"
    if "criticalPathLength t \<noteq> None" for t n
    using that by (auto simp: negatedLength_def)
  have "sorted (map negatedLength out)" by (simp add: out sortBy_def)
  then have "sorted_wrt (\<lambda>a b. negatedLength a \<le> negatedLength b) out" by (simp add: sorted_map)
  then have 2: "sorted_wrt (\<lambda>a b. \<exists>m n. criticalPathLength a = Some m
                  \<and> criticalPathLength b = Some n \<and> n \<le> m) out"
  proof (rule sorted_wrt_mono_rel [rotated])
    fix a b assume ab: "a \<in> set out" "b \<in> set out" and le: "negatedLength a \<le> negatedLength b"
    from ab(1) 1 obtain m where m: "criticalPathLength a = Some m" by blast
    from ab(2) 1 obtain n where n: "criticalPathLength b = Some n" by blast
    note mn = m n
    with le have "n \<le> m" by (simp add: negatedLength_def)
    with mn show "\<exists>m n. criticalPathLength a = Some m \<and> criticalPathLength b = Some n \<and> n \<le> m"
      by simp
  qed
  have 3: "filter (\<lambda>t. criticalPathLength t = Some n) out
             = filter (\<lambda>t. criticalPathLength t = Some n) (map snd (tasks c'))" for n
  proof -
    have "filter (\<lambda>t. criticalPathLength t = Some n) out
            = filter (\<lambda>t. negatedLength t = - int n) out"
      using 1 key by (intro filter_cong refl) auto
    also have "\<dots> = filter (\<lambda>t. negatedLength t = - int n) (map snd ts')"
      unfolding out sortBy_def by (rule sort_key_stable)
    also have "\<dots> = filter (\<lambda>t. criticalPathLength t = Some n) (map snd ts')"
      using each key by (intro filter_cong refl) auto
    finally show ?thesis by (simp add: c')
  qed
  from 1 2 3 show ?thesis by blast
qed

theorem getOrderedTasks_sorted_stable_witness:
  "performAll forkOperations (newTaskCollection True) = Some forkBCA
   \<and> getOrderedTasks forkBCA = Some (Inr forkOrdered, forkAfter)
   \<and> list_all (\<lambda>t. criticalPathLength t \<noteq> None) forkOrdered
   \<and> sorted_wrt (\<lambda>a b. \<exists>m n. criticalPathLength a = Some m \<and> criticalPathLength b = Some n
                              \<and> n \<le> m) forkOrdered
   \<and> (\<forall>n. filter (\<lambda>t. criticalPathLength t = Some n) forkOrdered
               = filter (\<lambda>t. criticalPathLength t = Some n) (map snd (tasks forkAfter)))"
proof -
  have r: "performAll forkOperations (newTaskCollection True) = Some forkBCA" by code_simp
  have g: "getOrderedTasks forkBCA = Some (Inr forkOrdered, forkAfter)" by code_simp
  from getOrderedTasks_sorted_stable [OF r g] r g show ?thesis by (simp add: list_all_iff)
qed

subsection \<open>The two sets stay inverse\<close>

text \<open>
  C6: every sequence of calls of \<open>addTask\<close>, \<open>addDependencies\<close>, \<open>hasTask\<close> and
  \<open>getOrderedTasks\<close> on a new collection, returning or throwing, leaves a collection
  (every call comes back), and in it B is in the dependencies of A exactly when A is in
  the dependents of B, for all registered A and B.
\<close>

theorem mutual_inverse_always:
  "\<exists>c. performAll operations (newTaskCollection quiet) = Some c
      \<and> (\<forall>a b. has (tasks c) a \<and> has (tasks c) b \<longrightarrow>
            (b \<in> set (dependenciesOf (tasks c) a) \<longleftrightarrow> a \<in> set (dependentsOf (tasks c) b)))"
proof -
  from performAll_invariant [OF invariant_new, of operations quiet] obtain c where
    "performAll operations (newTaskCollection quiet) = Some c" and "invariant c" by blast
  then show ?thesis unfolding invariant_def mutualInverse_def by blast
qed

theorem mutual_inverse_always_witness:
  "\<exists>c. performAll mixedOperations (newTaskCollection False) = Some c
      \<and> has (tasks c) ''A'' \<and> has (tasks c) ''B''
      \<and> ''B'' \<in> set (dependenciesOf (tasks c) ''A'')
      \<and> ''A'' \<in> set (dependentsOf (tasks c) ''B'')"
proof -
  from mutual_inverse_always [of mixedOperations False] obtain c where
    r: "performAll mixedOperations (newTaskCollection False) = Some c"
    and mi: "\<forall>a b. has (tasks c) a \<and> has (tasks c) b \<longrightarrow>
            (b \<in> set (dependenciesOf (tasks c) a) \<longleftrightarrow> a \<in> set (dependentsOf (tasks c) b))"
    by blast
  let ?c = "the (performAll mixedOperations (newTaskCollection False))"
  have c: "c = ?c" using r by simp
  have a: "has (tasks ?c) ''A''" by code_simp
  have b: "has (tasks ?c) ''B''" by code_simp
  have d: "''B'' \<in> set (dependenciesOf (tasks ?c) ''A'')" by code_simp
  from mi a b d have "''A'' \<in> set (dependentsOf (tasks c) ''B'')" unfolding c by blast
  with r a b d show ?thesis unfolding c by blast
qed

end
